theory Spec2Isabelle
  imports Complex_Main "HOL-Library.Log_Nat" "HOL-Library.Multiset" "HOL-Library.Product_Lexorder"
begin

section \<open>Machine integers\<close>

text \<open>
  The C++ source mixes \<open>int\<close> (32 bit), \<open>sf_count_t\<close> and \<open>long\<close> (64 bit, signed) and
  \<open>std::size_t\<close> (64 bit, unsigned).  Values are mathematical integers here and every
  conversion that can change a value is written out.  Signed arithmetic that leaves the
  range of its type and a division by zero are undefined behaviour in C++ (the latter
  ends the process by a signal on x86-64): the functions that can run into them, or into
  an exception that nobody catches, return the \<open>fault\<close> in place of a result.
\<close>

datatype fault = DivisionByZero | SignedOverflow | LengthError

definition in_range :: "nat \<Rightarrow> int \<Rightarrow> bool" where
  \<comment> \<open>the values of a signed type of \<open>w\<close> bits\<close>
  "in_range w x = (- (2 ^ (w - 1)) \<le> x \<and> x < 2 ^ (w - 1))"

definition max_size :: nat where
  \<comment> \<open>\<open>std::vector<float>::max_size ()\<close>, which is \<open>PTRDIFF_MAX / sizeof (float)\<close> in
      libstdc++; \<open>reserve\<close> throws \<open>std::length_error\<close> beyond it\<close>
  "max_size = 2 ^ 61 - 1"

definition wrap_signed :: "nat \<Rightarrow> int \<Rightarrow> int" where
  \<comment> \<open>two's complement reading of the low \<open>w\<close> bits\<close>
  "wrap_signed w x = (x + 2 ^ (w - 1)) mod 2 ^ w - 2 ^ (w - 1)"

definition to_size_t :: "int \<Rightarrow> nat" where
  \<comment> \<open>conversion of a signed value to \<open>std::size_t\<close>\<close>
  "to_size_t x = nat (x mod 2 ^ 64)"

definition quot :: "int \<Rightarrow> int \<Rightarrow> int" where
  \<comment> \<open>the operator \<open>/\<close> of C++ on signed integers: the quotient is truncated towards zero\<close>
  "quot a b = (if (a < 0) = (b < 0) then \<bar>a\<bar> div \<bar>b\<bar> else - (\<bar>a\<bar> div \<bar>b\<bar>))"

section \<open>Single-precision floating point\<close>

text \<open>
  A \<open>float\<close> is an IEEE 754 binary32 value: a finite number (with a separate negative
  zero), an infinity or a NaN.  Finite values carry their exact real value; the
  arithmetic operations compute the exact result and round it to nearest, ties to even,
  on the binary32 grid (24 significant bits, least exponent \<open>-149\<close>), overflowing to an
  infinity from \<open>2 ^ 128\<close> on.
\<close>

datatype f32 = Fin real | NZero | PInf | NInf | NaN

definition flog2 :: "real \<Rightarrow> int" where
  \<comment> \<open>the binary exponent \<open>\<lfloor>log\<^sub>2 x\<rfloor>\<close> of a positive number\<close>
  "flog2 x = (if 1 \<le> x then bitlen \<lfloor>x\<rfloor> - 1 else - bitlen (\<lceil>1 / x\<rceil> - 1))"

definition round_even :: "real \<Rightarrow> int" where
  "round_even x = (let f = \<lfloor>x\<rfloor>; d = x - of_int f in
     if d < 1 / 2 then f else if 1 / 2 < d then f + 1 else if even f then f else f + 1)"

definition fexp :: "real \<Rightarrow> int" where
  \<comment> \<open>exponent of the unit in the last place around \<open>x\<close>\<close>
  "fexp x = max (flog2 \<bar>x\<bar> - 23) (- 149)"

definition rnd :: "real \<Rightarrow> real" where
  \<comment> \<open>rounding to the binary32 grid, the exponent unbounded above\<close>
  "rnd x = (if x = 0 then 0 else of_int (round_even (x / 2 powi fexp x)) * 2 powi fexp x)"

definition round32 :: "real \<Rightarrow> f32" where
  "round32 x = (let v = rnd x in
     if 2 ^ 128 \<le> \<bar>v\<bar> then (if 0 < x then PInf else NInf)
     else if v = 0 \<and> x < 0 then NZero
     else Fin v)"

definition is_f32 :: "f32 \<Rightarrow> bool" where
  \<comment> \<open>a finite value is a binary32 number when rounding leaves it alone\<close>
  "is_f32 a = (case a of Fin r \<Rightarrow> rnd r = r \<and> \<bar>r\<bar> < 2 ^ 128 | _ \<Rightarrow> True)"

definition repr :: "real \<Rightarrow> bool" where
  \<comment> \<open>the numbers of the binary32 grid: 24 significant bits, exponent from \<open>- 149\<close> on\<close>
  "repr x = (\<exists>m e. x = of_int m * 2 powi e \<and> \<bar>m\<bar> < 2 ^ 24 \<and> - 149 \<le> e)"

fun fval :: "f32 \<Rightarrow> real" where
  "fval (Fin r) = r"
| "fval _ = 0"

fun is_nan :: "f32 \<Rightarrow> bool" where
  "is_nan NaN = True"
| "is_nan _ = False"

fun is_inf :: "f32 \<Rightarrow> bool" where
  "is_inf PInf = True"
| "is_inf NInf = True"
| "is_inf _ = False"

fun is_zero :: "f32 \<Rightarrow> bool" where
  "is_zero (Fin r) = (r = 0)"
| "is_zero NZero = True"
| "is_zero _ = False"

fun signbit :: "f32 \<Rightarrow> bool" where
  "signbit (Fin r) = (r < 0)"
| "signbit NZero = True"
| "signbit NInf = True"
| "signbit _ = False"

definition isfinite :: "f32 \<Rightarrow> bool" where
  "isfinite a = (\<not> is_nan a \<and> \<not> is_inf a)"

definition signed_zero :: "bool \<Rightarrow> f32" where
  "signed_zero neg = (if neg then NZero else Fin 0)"

definition signed_inf :: "bool \<Rightarrow> f32" where
  "signed_inf neg = (if neg then NInf else PInf)"

definition fadd :: "f32 \<Rightarrow> f32 \<Rightarrow> f32" where
  "fadd a b =
    (if is_nan a \<or> is_nan b then NaN
     else if is_inf a \<and> is_inf b then (if a = b then a else NaN)
     else if is_inf a then a
     else if is_inf b then b
     else if a = NZero \<and> b = NZero then NZero
     else round32 (fval a + fval b))"

definition fmul :: "f32 \<Rightarrow> f32 \<Rightarrow> f32" where
  "fmul a b =
    (if is_nan a \<or> is_nan b then NaN
     else if (is_inf a \<and> is_zero b) \<or> (is_zero a \<and> is_inf b) then NaN
     else if is_inf a \<or> is_inf b then signed_inf (signbit a \<noteq> signbit b)
     else if is_zero a \<or> is_zero b then signed_zero (signbit a \<noteq> signbit b)
     else round32 (fval a * fval b))"

definition fdiv :: "f32 \<Rightarrow> f32 \<Rightarrow> f32" where
  "fdiv a b =
    (if is_nan a \<or> is_nan b then NaN
     else if (is_inf a \<and> is_inf b) \<or> (is_zero a \<and> is_zero b) then NaN
     else if is_inf a \<or> is_zero b then signed_inf (signbit a \<noteq> signbit b)
     else if is_inf b \<or> is_zero a then signed_zero (signbit a \<noteq> signbit b)
     else round32 (fval a / fval b))"

definition ffma :: "f32 \<Rightarrow> f32 \<Rightarrow> f32 \<Rightarrow> f32" where
  \<comment> \<open>fused multiply-add \<open>a * b + c\<close>: one rounding, of the exact result\<close>
  "ffma a b c =
    (if is_nan a \<or> is_nan b \<or> is_nan c then NaN
     else if (is_inf a \<and> is_zero b) \<or> (is_zero a \<and> is_inf b) then NaN
     else if is_inf a \<or> is_inf b then
       (if is_inf c \<and> c \<noteq> signed_inf (signbit a \<noteq> signbit b) then NaN
        else signed_inf (signbit a \<noteq> signbit b))
     else if is_inf c then c
     else if (is_zero a \<or> is_zero b) \<and> is_zero c then
       signed_zero ((signbit a \<noteq> signbit b) \<and> signbit c)
     else round32 (fval a * fval b + fval c))"

fun fabs :: "f32 \<Rightarrow> f32" where
  "fabs (Fin r) = Fin \<bar>r\<bar>"
| "fabs NZero = Fin 0"
| "fabs PInf = PInf"
| "fabs NInf = PInf"
| "fabs NaN = NaN"

fun ext :: "f32 \<Rightarrow> int \<times> real" where
  \<comment> \<open>the position of a value on the extended real line; both zeros at the same place\<close>
  "ext (Fin r) = (0, r)"
| "ext NZero = (0, 0)"
| "ext PInf = (1, 0)"
| "ext NInf = (- 1, 0)"
| "ext NaN = (2, 0)"

definition fgt :: "f32 \<Rightarrow> f32 \<Rightarrow> bool" where
  \<comment> \<open>the comparison \<open>a > b\<close>, which is what \<open>std::greater\<close> calls: false when either is a NaN\<close>
  "fgt a b = (\<not> is_nan a \<and> \<not> is_nan b \<and> ext b < ext a)"

definition round_away :: "real \<Rightarrow> int" where
  \<comment> \<open>nearest integer, halfway cases away from zero\<close>
  "round_away r = (if 0 \<le> r then \<lfloor>r + 1 / 2\<rfloor> else - \<lfloor>- r + 1 / 2\<rfloor>)"

fun fround :: "f32 \<Rightarrow> f32" where
  \<comment> \<open>\<open>std::round\<close> on a \<open>float\<close>\<close>
  "fround (Fin r) = (if round_away r = 0 \<and> r < 0 then NZero else Fin (of_int (round_away r)))"
| "fround a = a"

fun lround :: "f32 \<Rightarrow> int" where
  \<comment> \<open>\<open>std::lround\<close>, to a 64-bit \<open>long\<close>; the C standard leaves the result unspecified
      for a value outside the range of \<open>long\<close> (the low 64 bits here) and for an infinity
      or a NaN (the least \<open>long\<close> here, which is what x86-64 returns)\<close>
  "lround (Fin r) = wrap_signed 64 (round_away r)"
| "lround NZero = 0"
| "lround _ = - (2 ^ 63)"

definition f32_of_int :: "int \<Rightarrow> f32" where
  "f32_of_int n = round32 (of_int n)"

definition f32_of_nat :: "nat \<Rightarrow> f32" where
  \<comment> \<open>conversion of a \<open>std::size_t\<close> to \<open>float\<close>\<close>
  "f32_of_nat n = round32 (of_nat n)"

section \<open>Vector operations of the Highway library\<close>

text \<open>
  A vector of \<open>HWY_FULL(float)\<close> is a list of lanes.  What the compiled target fixes is
  the number of lanes and whether \<open>MulAdd\<close> is fused; both are parameters.
\<close>

record target =
  Lanes :: nat
  HasFMA :: bool

type_synonym vec = "f32 list"

definition hn_Zero :: "target \<Rightarrow> vec" where
  "hn_Zero d = replicate (Lanes d) (Fin 0)"

definition hn_MulAdd :: "target \<Rightarrow> vec \<Rightarrow> vec \<Rightarrow> vec \<Rightarrow> vec" where
  "hn_MulAdd d a b c =
     map (\<lambda>(x, y, z). if HasFMA d then ffma x y z else fadd (fmul x y) z) (zip a (zip b c))"

definition hn_Abs :: "vec \<Rightarrow> vec" where
  "hn_Abs a = map fabs a"

definition fmax :: "f32 \<Rightarrow> f32 \<Rightarrow> f32" where
  \<comment> \<open>one lane of \<open>Max\<close>, as the x86 instruction has it: the second operand unless the
      first is greater\<close>
  "fmax a b = (if fgt a b then a else b)"

definition hn_Max :: "vec \<Rightarrow> vec \<Rightarrow> vec" where
  "hn_Max a b = map (\<lambda>(x, y). fmax x y) (zip a b)"

fun reduce_lanes :: "(f32 \<Rightarrow> f32 \<Rightarrow> f32) \<Rightarrow> vec \<Rightarrow> f32" where
  "reduce_lanes f [] = Fin 0"
| "reduce_lanes f (x # xs) = foldl f x xs"

definition SumOfLanes :: "vec \<Rightarrow> f32" where
  \<comment> \<open>\<open>GetLane (SumOfLanes v)\<close>; the lanes are added from the first on\<close>
  "SumOfLanes v = reduce_lanes fadd v"

definition MaxOfLanes :: "vec \<Rightarrow> f32" where
  "MaxOfLanes v = reduce_lanes fmax v"

definition LoadNOr :: "vec \<Rightarrow> f32 list \<Rightarrow> nat \<Rightarrow> vec" where
  \<comment> \<open>the first \<open>n\<close> lanes from memory, the others from \<open>no\<close>\<close>
  "LoadNOr no p n = take n p @ drop n no"

fun evens :: "'a list \<Rightarrow> 'a list" and odds :: "'a list \<Rightarrow> 'a list" where
  "evens [] = []"
| "evens (x # xs) = x # odds xs"
| "odds [] = []"
| "odds (x # xs) = evens xs"

definition LoadInterleaved2 :: "target \<Rightarrow> f32 list \<Rightarrow> vec \<times> vec" where
  "LoadInterleaved2 d p = (evens (take (2 * Lanes d) p), odds (take (2 * Lanes d) p))"

definition ConcatEven :: "vec \<Rightarrow> vec \<Rightarrow> vec" where
  \<comment> \<open>\<open>ConcatEven d hi lo\<close>: the even lanes of \<open>lo\<close>, then those of \<open>hi\<close>\<close>
  "ConcatEven hi lo = evens (lo @ hi)"

definition ConcatOdd :: "vec \<Rightarrow> vec \<Rightarrow> vec" where
  "ConcatOdd hi lo = odds (lo @ hi)"

function Foreach_full :: "nat \<Rightarrow> f32 list \<Rightarrow> nat \<Rightarrow> (vec \<Rightarrow> 's \<Rightarrow> 's) \<Rightarrow> nat \<Rightarrow> 's \<Rightarrow> nat \<times> 's" where
  "Foreach_full N inp cnt func idx s =
     (if 0 < N \<and> idx + N \<le> cnt
      then Foreach_full N inp cnt func (idx + N) (func (take N (drop idx inp)) s)
      else (idx, s))"
  by pat_completeness auto
termination
  by (relation "measure (\<lambda>(N, inp, cnt, func, idx, s). cnt - idx)") auto

declare Foreach_full.simps [simp del]

definition Foreach :: "target \<Rightarrow> f32 list \<Rightarrow> nat \<Rightarrow> vec \<Rightarrow> (vec \<Rightarrow> 's \<Rightarrow> 's) \<Rightarrow> 's \<Rightarrow> 's" where
  \<comment> \<open>\<open>hn::Foreach\<close>: \<open>func\<close> on every whole vector of the first \<open>cnt\<close> elements, then on
      the rest, padded with the lanes of \<open>no\<close>\<close>
  "Foreach d inp cnt no func s =
     (case Foreach_full (Lanes d) inp cnt func 0 s of
        (idx, s') \<Rightarrow>
          if idx = cnt then s'
          else func (LoadNOr no (drop idx inp) (cnt - idx)) s')"

section \<open>The audio stream\<close>

text \<open>
  What the program uses of a \<open>SndfileHandle\<close>: the header fields and the samples not yet
  read, interleaved.
\<close>

record sndfile =
  sf_samplerate :: int
  sf_channels :: int
  sf_frames :: int
  sf_data :: "f32 list"

definition readf :: "sndfile \<Rightarrow> int \<Rightarrow> (f32 list \<times> nat) \<times> sndfile" where
  \<comment> \<open>\<open>readf (ptr, frames)\<close>: the samples written to the buffer, the number of frames read,
      and the stream behind them; a count that is not positive reads nothing\<close>
  "readf inp n =
     (let ch = nat (sf_channels inp);
          got = (if n \<le> 0 then 0 else min (nat n) (length (sf_data inp) div ch))
      in ((take (got * ch) (sf_data inp), got), inp\<lparr>sf_data := drop (got * ch) (sf_data inp)\<rparr>))"

definition stream_ok :: "sndfile \<Rightarrow> bool" where
  \<comment> \<open>the header agrees with the data\<close>
  "stream_ok inp =
     (0 < sf_channels inp \<and> sf_frames inp = int (length (sf_data inp) div nat (sf_channels inp))
      \<and> length (sf_data inp) mod nat (sf_channels inp) = 0)"

section \<open>Library functions taken as parameters\<close>

text \<open>
  \<open>std::nth_element\<close> with \<open>std::greater\<close> and \<open>std::log10\<close> belong to the C++ library.
  The program is modelled for any implementation of them; what the C++ standard and the
  C standard promise about them is stated as predicates.
\<close>

record platform =
  hwy :: target
  nth_element :: "nat \<Rightarrow> f32 list \<Rightarrow> f32 list"
  log10 :: "f32 \<Rightarrow> f32"

definition nth_element_post :: "nat \<Rightarrow> f32 list \<Rightarrow> f32 list \<Rightarrow> bool" where
  \<comment> \<open>\<open>ys\<close> is what \<open>nth_element (first, first + n, last, greater)\<close> may leave of \<open>xs\<close>: a
      rearrangement where nothing before position \<open>n\<close> is smaller than the element there
      and nothing behind it is greater; no effect is required when \<open>first + n = last\<close>\<close>
  "nth_element_post n xs ys =
     (mset ys = mset xs \<and>
      (n < length ys \<longrightarrow>
         list_all (\<lambda>y. \<not> fgt (ys ! n) y) (take n ys) \<and>
         list_all (\<lambda>y. \<not> fgt y (ys ! n)) (drop (Suc n) ys)))"

definition nth_element_spec :: "(nat \<Rightarrow> f32 list \<Rightarrow> f32 list) \<Rightarrow> bool" where
  "nth_element_spec sel = (\<forall>n xs. nth_element_post n xs (sel n xs))"

definition log10_spec :: "(f32 \<Rightarrow> f32) \<Rightarrow> bool" where
  \<comment> \<open>the special values of \<open>log10\<close> by Annex F of the C standard, and an accuracy of
      \<open>2 ^ - 16\<close> on the positive binary32 numbers (four units in the last place at the
      largest logarithms)\<close>
  "log10_spec lg =
     (lg NaN = NaN \<and> lg PInf = PInf \<and> lg NInf = NaN \<and> lg NZero = NInf \<and> lg (Fin 0) = NInf \<and>
      (\<forall>r. r < 0 \<longrightarrow> lg (Fin r) = NaN) \<and>
      (\<forall>r. 0 < r \<longrightarrow> is_f32 (Fin r) \<longrightarrow>
           (\<exists>y. lg (Fin r) = Fin y \<and> \<bar>y - log 10 r\<bar> \<le> 1 / 2 ^ 16)))"

section \<open>compute\_dr.cpp\<close>

text \<open>
  Memory is not bounded here: an allocation gives the storage that was asked for, unless
  the library refuses the request itself.  \<open>hwy::AllocateAligned\<close> returns a null pointer
  for \<open>2 ^ 62\<close> elements or more, which is what a negative \<open>int\<close> becomes as a
  \<open>std::size_t\<close>; \<open>readf\<close> is then called with a negative count and leaves the buffer
  alone.  \<open>std::vector::reserve\<close> throws beyond \<open>max_size\<close>, and nothing catches it.
\<close>

definition GetBlockSize :: "sndfile \<Rightarrow> int" where
  \<comment> \<open>the \<open>long\<close> of \<open>std::lround\<close> is returned as an \<open>int\<close>\<close>
  "GetBlockSize inp =
     (let samplerate = sf_samplerate inp in
      wrap_signed 32
        (lround (fdiv (fmul (fmul (Fin 3) (f32_of_int samplerate)) (Fin 44160)) (f32_of_int 44100))))"

definition num_blocks_of :: "int \<Rightarrow> int \<Rightarrow> fault + nat" where
  \<comment> \<open>\<open>std::max<std::size_t> (1, (input.frames () + block_size - 1) / block_size)\<close>, the sum,
      the difference and the quotient in \<open>sf_count_t\<close>\<close>
  "num_blocks_of frames block_size =
     (if \<not> in_range 64 (frames + block_size) \<or> \<not> in_range 64 (frames + block_size - 1)
      then Inl SignedOverflow
      else if block_size = 0 then Inl DivisionByZero
      else if \<not> in_range 64 (quot (frames + block_size - 1) block_size) then Inl SignedOverflow
      else Inr (max 1 (to_size_t (quot (frames + block_size - 1) block_size))))"

definition num_top_blocks_of :: "nat \<Rightarrow> nat" where
  "num_top_blocks_of num_blocks = max 1 (num_blocks div 5)"

definition mono_block :: "target \<Rightarrow> f32 list \<Rightarrow> nat \<Rightarrow> f32 \<times> f32" where
  \<comment> \<open>the mean square and the peak of one block of \<open>samples_read\<close> samples\<close>
  "mono_block d block_samples samples_read =
     (case Foreach d block_samples samples_read (hn_Zero d)
             (\<lambda>samples (sums_of_squares, peaks).
                (hn_MulAdd d samples samples sums_of_squares, hn_Max peaks (hn_Abs samples)))
             (hn_Zero d, hn_Zero d) of
        (sums_of_squares, peaks) \<Rightarrow>
          (fdiv (SumOfLanes sums_of_squares) (f32_of_nat samples_read), MaxOfLanes peaks))"

fun mono_blocks :: "target \<Rightarrow> int \<Rightarrow> nat \<Rightarrow> sndfile \<Rightarrow> f32 list \<times> f32 list \<Rightarrow> f32 list \<times> f32 list" where
  \<comment> \<open>the loop over the blocks, \<open>n\<close> iterations to go\<close>
  "mono_blocks d block_size 0 inp stats = stats"
| "mono_blocks d block_size (Suc n) inp (block_mean_square, block_peak) =
     (case readf inp block_size of
        ((block_samples, samples_read), inp') \<Rightarrow>
          (case mono_block d block_samples samples_read of
             (m, p) \<Rightarrow> mono_blocks d block_size n inp' (block_mean_square @ [m], block_peak @ [p])))"

function sum_first :: "f32 list \<Rightarrow> nat \<Rightarrow> nat \<Rightarrow> f32 \<Rightarrow> f32" where
  \<comment> \<open>\<open>for (i; i < n; ++i) acc += v[i]\<close>\<close>
  "sum_first v i n acc = (if i < n then sum_first v (Suc i) n (fadd acc (v ! i)) else acc)"
  by pat_completeness auto
termination
  by (relation "measure (\<lambda>(v, i, n, acc). n - i)") auto

declare sum_first.simps [simp del]

definition top_average :: "platform \<Rightarrow> nat \<Rightarrow> f32 list \<Rightarrow> f32" where
  \<comment> \<open>\<open>average_mean_square\<close>: lines 65 to 71\<close>
  "top_average P num_top_blocks block_mean_square =
     (let v = nth_element P (num_top_blocks - 1) block_mean_square;
          average_mean_square = sum_first v 0 num_top_blocks (Fin 0)
      in fmul average_mean_square (fdiv (Fin 2) (f32_of_nat num_top_blocks)))"

definition representative_peak :: "platform \<Rightarrow> f32 list \<Rightarrow> f32" where
  \<comment> \<open>\<open>peak\<close>: lines 73 and 74; \<open>size () - 1\<close> is computed in \<open>std::size_t\<close>\<close>
  "representative_peak P block_peak =
     (let v = nth_element P 1 block_peak
      in v ! min 1 (to_size_t (int (length v) - 1)))"

definition channel_dr :: "platform \<Rightarrow> f32 \<Rightarrow> f32 \<Rightarrow> f32" where
  \<comment> \<open>\<open>10 * std::log10 (peak * peak / average_mean_square)\<close>\<close>
  "channel_dr P peak average_mean_square =
     fmul (f32_of_int 10) (log10 P (fdiv (fmul peak peak) average_mean_square))"

definition mono_dr :: "platform \<Rightarrow> nat \<Rightarrow> f32 list \<Rightarrow> f32 list \<Rightarrow> f32" where
  \<comment> \<open>lines 65 to 76, from the statistics of the blocks\<close>
  "mono_dr P num_top_blocks block_mean_square block_peak =
     (let average_mean_square = top_average P num_top_blocks block_mean_square;
          peak = representative_peak P block_peak
      in channel_dr P peak average_mean_square)"

definition mono_stats_of :: "platform \<Rightarrow> sndfile \<Rightarrow> fault + nat \<times> f32 list \<times> f32 list" where
  \<comment> \<open>lines 42 to 63: \<open>num_top_blocks\<close>, \<open>block_mean_square\<close> and \<open>block_peak\<close> behind the
      loop over the blocks.  The buffer of line 45 has \<open>block_size\<close> elements, or is null
      when \<open>block_size\<close> is negative, and then \<open>readf\<close> writes nothing\<close>
  "mono_stats_of P inp =
     (let block_size = GetBlockSize inp in
      case num_blocks_of (sf_frames inp) block_size of
        Inl f \<Rightarrow> Inl f
      | Inr num_blocks \<Rightarrow>
          (let num_top_blocks = num_top_blocks_of num_blocks in
           if max_size < num_blocks then Inl LengthError
           else Inr (num_top_blocks, mono_blocks (hwy P) block_size num_blocks inp ([], []))))"

definition ComputeMonoDR :: "platform \<Rightarrow> sndfile \<Rightarrow> fault + f32" where
  "ComputeMonoDR P inp =
     (case mono_stats_of P inp of
        Inl f \<Rightarrow> Inl f
      | Inr (num_top_blocks, block_mean_square, block_peak) \<Rightarrow>
          Inr (mono_dr P num_top_blocks block_mean_square block_peak))"

type_synonym acc4 = "vec \<times> vec \<times> vec \<times> vec"

definition stereo_step :: "target \<Rightarrow> vec \<Rightarrow> vec \<Rightarrow> acc4 \<Rightarrow> acc4" where
  "stereo_step d left right acc =
     (case acc of (left_sums_of_squares, right_sums_of_squares, left_peaks, right_peaks) \<Rightarrow>
        (hn_MulAdd d left left left_sums_of_squares,
         hn_MulAdd d right right right_sums_of_squares,
         hn_Max left_peaks (hn_Abs left),
         hn_Max right_peaks (hn_Abs right)))"

function stereo_full :: "target \<Rightarrow> f32 list \<Rightarrow> nat \<Rightarrow> nat \<Rightarrow> acc4 \<Rightarrow> nat \<times> acc4" where
  \<comment> \<open>the loop over the whole vectors of frames: lines 103 to 110\<close>
  "stereo_full d block_samples frames_read i acc =
     (if 0 < Lanes d \<and> i + Lanes d \<le> frames_read
      then (case LoadInterleaved2 d (drop (2 * i) block_samples) of
              (left, right) \<Rightarrow>
                stereo_full d block_samples frames_read (i + Lanes d) (stereo_step d left right acc))
      else (i, acc))"
  by pat_completeness auto
termination
  by (relation "measure (\<lambda>(d, block_samples, frames_read, i, acc). frames_read - i)") auto

declare stereo_full.simps [simp del]

definition stereo_rest :: "target \<Rightarrow> f32 list \<Rightarrow> nat \<Rightarrow> nat \<Rightarrow> acc4 \<Rightarrow> acc4" where
  \<comment> \<open>the frames left over: lines 111 to 123\<close>
  "stereo_rest d block_samples frames_read i acc =
     (if i \<noteq> frames_read then
        (let remaining = 2 * (frames_read - i);
             a = LoadNOr (hn_Zero d) (drop (2 * i) block_samples) (min (Lanes d) remaining);
             b = (if Lanes d < remaining
                  then LoadNOr (hn_Zero d) (drop (2 * i + Lanes d) block_samples) (remaining - Lanes d)
                  else hn_Zero d);
             left = ConcatEven b a;
             right = ConcatOdd b a
         in stereo_step d left right acc)
      else acc)"

definition stereo_block :: "target \<Rightarrow> f32 list \<Rightarrow> nat \<Rightarrow> (f32 \<times> f32) \<times> (f32 \<times> f32)" where
  \<comment> \<open>mean square and peak of the left channel, and of the right channel\<close>
  "stereo_block d block_samples frames_read =
     (case stereo_full d block_samples frames_read 0 (hn_Zero d, hn_Zero d, hn_Zero d, hn_Zero d) of
        (i, acc) \<Rightarrow>
          (case stereo_rest d block_samples frames_read i acc of
             (left_sums_of_squares, right_sums_of_squares, left_peaks, right_peaks) \<Rightarrow>
               ((fdiv (SumOfLanes left_sums_of_squares) (f32_of_nat frames_read), MaxOfLanes left_peaks),
                (fdiv (SumOfLanes right_sums_of_squares) (f32_of_nat frames_read), MaxOfLanes right_peaks))))"

record stereo_stats =
  left_block_mean_square :: "f32 list"
  left_block_peak :: "f32 list"
  right_block_mean_square :: "f32 list"
  right_block_peak :: "f32 list"

fun stereo_blocks :: "target \<Rightarrow> int \<Rightarrow> nat \<Rightarrow> sndfile \<Rightarrow> stereo_stats \<Rightarrow> stereo_stats" where
  "stereo_blocks d block_size 0 inp stats = stats"
| "stereo_blocks d block_size (Suc n) inp stats =
     (case readf inp block_size of
        ((block_samples, frames_read), inp') \<Rightarrow>
          (case stereo_block d block_samples frames_read of
             ((lm, lp), (rm, rp)) \<Rightarrow>
               stereo_blocks d block_size n inp'
                 \<lparr>left_block_mean_square = left_block_mean_square stats @ [lm],
                  left_block_peak = left_block_peak stats @ [lp],
                  right_block_mean_square = right_block_mean_square stats @ [rm],
                  right_block_peak = right_block_peak stats @ [rp]\<rparr>))"

definition stereo_dr :: "platform \<Rightarrow> nat \<Rightarrow> stereo_stats \<Rightarrow> f32 \<times> f32" where
  \<comment> \<open>lines 132 to 151, from the statistics of the blocks\<close>
  "stereo_dr P num_top_blocks stats =
     (let left_average_mean_square = top_average P num_top_blocks (left_block_mean_square stats);
          right_average_mean_square = top_average P num_top_blocks (right_block_mean_square stats);
          left_peak = representative_peak P (left_block_peak stats);
          right_peak = representative_peak P (right_block_peak stats)
      in (channel_dr P left_peak left_average_mean_square,
          channel_dr P right_peak right_average_mean_square))"

definition stereo_stats_of :: "platform \<Rightarrow> sndfile \<Rightarrow> fault + nat \<times> stereo_stats" where
  \<comment> \<open>lines 82 to 130: \<open>num_top_blocks\<close> and the four vectors behind the loop over the
      blocks.  The size \<open>2 * block_size\<close> of the buffer of line 85 is computed in \<open>int\<close>\<close>
  "stereo_stats_of P inp =
     (let block_size = GetBlockSize inp in
      case num_blocks_of (sf_frames inp) block_size of
        Inl f \<Rightarrow> Inl f
      | Inr num_blocks \<Rightarrow>
          (let num_top_blocks = num_top_blocks_of num_blocks in
           if \<not> in_range 32 (2 * block_size) then Inl SignedOverflow
           else if max_size < num_blocks then Inl LengthError
           else Inr (num_top_blocks,
                  stereo_blocks (hwy P) block_size num_blocks inp
                    \<lparr>left_block_mean_square = [], left_block_peak = [],
                     right_block_mean_square = [], right_block_peak = []\<rparr>)))"

definition ComputeStereoDR :: "platform \<Rightarrow> sndfile \<Rightarrow> fault + f32 \<times> f32" where
  "ComputeStereoDR P inp =
     (case stereo_stats_of P inp of
        Inl f \<Rightarrow> Inl f
      | Inr (num_top_blocks, stats) \<Rightarrow> Inr (stereo_dr P num_top_blocks stats))"

section \<open>main.cpp\<close>

datatype RatingType = kMonoRating f32 | kStereoRating f32 f32

record Rating =
  rating :: RatingType
  final_rating :: f32

definition ComputeRating :: "platform \<Rightarrow> sndfile \<Rightarrow> fault + Rating" where
  "ComputeRating P inp =
     (if sf_channels inp = 1 then
        (case ComputeMonoDR P inp of
           Inl f \<Rightarrow> Inl f
         | Inr dr \<Rightarrow> Inr \<lparr>rating = kMonoRating dr, final_rating = fround dr\<rparr>)
      else
        (case ComputeStereoDR P inp of
           Inl f \<Rightarrow> Inl f
         | Inr (left_dr, right_dr) \<Rightarrow>
             Inr \<lparr>rating = kStereoRating left_dr right_dr,
                  final_rating = fround (fdiv (fadd left_dr right_dr) (f32_of_int 2))\<rparr>))"

datatype error = OpenFailed string | TooManyChannels string int

fun open_tracks :: "(string \<times> sndfile option) list \<Rightarrow> (string \<times> sndfile) list \<Rightarrow> error + (string \<times> sndfile) list" where
  \<comment> \<open>the first loop of \<open>main\<close>; a file that cannot be opened has no handle\<close>
  "open_tracks [] tracks = Inr tracks"
| "open_tracks ((filename, None) # rest) tracks = Inl (OpenFailed filename)"
| "open_tracks ((filename, Some inp) # rest) tracks =
     (if 2 < sf_channels inp then Inl (TooManyChannels filename (sf_channels inp))
      else open_tracks rest (tracks @ [(filename, inp)]))"

datatype shown = DR f32 | NA

definition show_rating :: "f32 \<Rightarrow> shown" where
  \<comment> \<open>what is printed for a rating: the number behind \<open>DR\<close>, or \<open>N/A\<close>\<close>
  "show_rating r = (if isfinite r then DR r else NA)"

definition album_rating :: "f32 list \<Rightarrow> f32" where
  \<comment> \<open>the variable \<open>album_rating\<close> at the end of \<open>main\<close>, from the final ratings of the tracks\<close>
  "album_rating finals =
     (let s = foldl fadd (Fin 0) finals
      in if 1 < length finals then fround (fdiv s (f32_of_nat (length finals))) else s)"

fun rate_tracks :: "platform \<Rightarrow> (string \<times> sndfile) list \<Rightarrow> (string \<times> Rating) list option" where
  \<comment> \<open>the second loop of \<open>main\<close>, which rates every track; a fault in any of them ends
      the process, and then there is no result\<close>
  "rate_tracks P [] = Some []"
| "rate_tracks P ((filename, inp) # rest) =
     (case ComputeRating P inp of
        Inl f \<Rightarrow> None
      | Inr r \<Rightarrow>
          (case rate_tracks P rest of
             None \<Rightarrow> None
           | Some rated \<Rightarrow> Some ((filename, r) # rated)))"

datatype outcome =
  EXIT_FAILURE error
| EXIT_SUCCESS "(string \<times> RatingType \<times> shown) list" "shown option"
| KILLED

definition main :: "platform \<Rightarrow> (string \<times> sndfile option) list \<Rightarrow> outcome" where
  \<comment> \<open>the exit status with what was printed: the error, or a report for each track and the
      album rating when there is more than one track; \<open>KILLED\<close> when the process is ended
      by a fault before it prints anything\<close>
  "main P files =
     (case open_tracks files [] of
        Inl e \<Rightarrow> EXIT_FAILURE e
      | Inr tracks \<Rightarrow>
          (case rate_tracks P tracks of
             None \<Rightarrow> KILLED
           | Some rated \<Rightarrow>
               (let reports = map (\<lambda>(filename, r). (filename, rating r, show_rating (final_rating r))) rated;
                    album = album_rating (map (\<lambda>(filename, r). final_rating r) rated)
                in EXIT_SUCCESS reports (if 1 < length tracks then Some (show_rating album) else None))))"

definition silent :: "f32 list \<Rightarrow> bool" where
  \<comment> \<open>every sample is a zero, of either sign\<close>
  "silent xs = (\<forall>x\<in>set xs. is_zero x)"

definition halvable :: "f32 \<Rightarrow> bool" where
  \<comment> \<open>values whose double does not overflow\<close>
  "halvable x = (case x of Fin v \<Rightarrow> rnd v = v \<and> \<bar>v\<bar> < 2 ^ 127 | _ \<Rightarrow> True)"

definition descending :: "f32 list \<Rightarrow> (int \<times> real) list" where
  \<comment> \<open>the values of a sequence without NaN, the largest first\<close>
  "descending xs = rev (sort (map ext xs))"

section \<open>A reference platform\<close>

text \<open>
  One implementation of the library functions: a full descending sort (which is a valid
  \<open>nth_element\<close>) and the correctly rounded logarithm.
\<close>

definition sort_desc :: "nat \<Rightarrow> f32 list \<Rightarrow> f32 list" where
  "sort_desc n xs = rev (sort_key ext xs)"

definition log10_ref :: "f32 \<Rightarrow> f32" where
  "log10_ref a =
     (case a of
        Fin r \<Rightarrow> if r = 0 then NInf else if r < 0 then NaN else Fin (rnd (log 10 r))
      | NZero \<Rightarrow> NInf
      | PInf \<Rightarrow> PInf
      | NInf \<Rightarrow> NaN
      | NaN \<Rightarrow> NaN)"

definition lazy_select :: "nat \<Rightarrow> f32 list \<Rightarrow> f32 list" where
  \<comment> \<open>another valid \<open>nth_element\<close>: it moves nothing when nothing has to move\<close>
  "lazy_select n xs = (if nth_element_post n xs xs then xs else sort_desc n xs)"

definition ref_platform :: platform where
  "ref_platform =
     \<lparr>hwy = \<lparr>Lanes = 4, HasFMA = True\<rparr>, nth_element = sort_desc, log10 = log10_ref\<rparr>"

definition lazy_platform :: platform where
  "lazy_platform = ref_platform\<lparr>nth_element := lazy_select\<rparr>"

section \<open>Example inputs\<close>

definition cd_stream :: sndfile where
  \<comment> \<open>a million stereo frames at 44.1 kHz; the samples play no part in the block counts\<close>
  "cd_stream = \<lparr>sf_samplerate = 44100, sf_channels = 2, sf_frames = 1000000, sf_data = []\<rparr>"

definition gigahertz_stream :: sndfile where
  \<comment> \<open>three seconds at a sample rate of 1 GHz\<close>
  "gigahertz_stream =
     \<lparr>sf_samplerate = 1000000000, sf_channels = 1, sf_frames = 3000000000, sf_data = []\<rparr>"

definition empty_stream :: sndfile where
  \<comment> \<open>a mono file without a single frame\<close>
  "empty_stream = \<lparr>sf_samplerate = 44100, sf_channels = 1, sf_frames = 0, sf_data = []\<rparr>"

definition surround_stream :: sndfile where
  \<comment> \<open>a file with six channels\<close>
  "surround_stream = \<lparr>sf_samplerate = 48000, sf_channels = 6, sf_frames = 0, sf_data = []\<rparr>"

definition zero_block_stream :: sndfile where
  \<comment> \<open>a mono file without a single frame, at a sample rate whose block size is computed
      as 0\<close>
  "zero_block_stream =
     \<lparr>sf_samplerate = 1429710528, sf_channels = 1, sf_frames = 0, sf_data = []\<rparr>"

definition silent_gigahertz :: sndfile where
  \<comment> \<open>three frames of silence at a sample rate of 1 GHz, mono\<close>
  "silent_gigahertz =
     \<lparr>sf_samplerate = 1000000000, sf_channels = 1, sf_frames = 3, sf_data = [Fin 0, Fin 0, Fin 0]\<rparr>"

definition silent_zero_block :: sndfile where
  \<comment> \<open>three frames of silence at a sample rate whose block size is computed as 0, mono\<close>
  "silent_zero_block =
     \<lparr>sf_samplerate = 1429710528, sf_channels = 1, sf_frames = 3, sf_data = [Fin 0, Fin 0, Fin 0]\<rparr>"

definition silent_400MHz :: sndfile where
  \<comment> \<open>three frames of silence at a sample rate of 400 MHz, stereo\<close>
  "silent_400MHz =
     \<lparr>sf_samplerate = 400000000, sf_channels = 2, sf_frames = 3,
      sf_data = [Fin 0, Fin 0, Fin 0, Fin 0, Fin 0, Fin 0]\<rparr>"

definition silent_mono :: sndfile where
  \<comment> \<open>three frames of silence, one of them a negative zero\<close>
  "silent_mono =
     \<lparr>sf_samplerate = 44100, sf_channels = 1, sf_frames = 3, sf_data = [Fin 0, NZero, Fin 0]\<rparr>"

definition silent_stereo :: sndfile where
  "silent_stereo =
     \<lparr>sf_samplerate = 48000, sf_channels = 2, sf_frames = 2, sf_data = [Fin 0, Fin 0, NZero, Fin 0]\<rparr>"

definition scenario_mean_square :: "f32 list" where
  \<comment> \<open>the worked scenario of the specification: five blocks\<close>
  "scenario_mean_square = [Fin 1, Fin 2, Fin 3, Fin 4, Fin 5]"

definition scenario_peak :: "f32 list" where
  \<comment> \<open>the peaks of the scenario, each the nearest \<open>float\<close>\<close>
  "scenario_peak = map round32 [1 / 10, 2 / 10, 9 / 10, 5 / 100, 3 / 10]"

definition quiet_blocks :: "f32 list" where
  \<comment> \<open>twenty mean squares: one block at full scale, three at \<open>2 ^ - 24 = 1 / 16777216\<close>,
      sixteen silent\<close>
  "quiet_blocks =
     [Fin 1, Fin (1 / 16777216), Fin (1 / 16777216), Fin (1 / 16777216)] @ replicate 16 (Fin 0)"

definition quiet_blocks_reordered :: "f32 list" where
  \<comment> \<open>the same twenty values with the loud block in third place\<close>
  "quiet_blocks_reordered =
     [Fin (1 / 16777216), Fin (1 / 16777216), Fin 1, Fin (1 / 16777216)] @ replicate 16 (Fin 0)"

definition twin_stereo :: sndfile where
  \<comment> \<open>three stereo frames, the same samples left and right\<close>
  "twin_stereo =
     \<lparr>sf_samplerate = 44100, sf_channels = 2, sf_frames = 3,
      sf_data = [Fin (1 / 2), Fin (1 / 2), Fin (- (1 / 4)), Fin (- (1 / 4)), Fin (1 / 8), Fin (1 / 8)]\<rparr>"

section \<open>Rounding to binary32\<close>

subsection \<open>Powers of two and the binary exponent\<close>

lemma p2_pos [simp]: "0 < (2::real) powi a"
  by (simp add: zero_less_power_int)

lemma p2_less_iff [simp]: "(2::real) powi a < 2 powi b \<longleftrightarrow> a < b"
proof
  assume h: "(2::real) powi a < 2 powi b"
  show "a < b"
  proof (rule ccontr)
    assume "\<not> a < b"
    then have "(2::real) powi b \<le> 2 powi a" by (intro power_int_increasing) auto
    with h show False by simp
  qed
next
  assume "a < b"
  then show "(2::real) powi a < 2 powi b" by (intro power_int_strict_increasing) auto
qed

lemma p2_le_iff [simp]: "(2::real) powi a \<le> 2 powi b \<longleftrightarrow> a \<le> b"
  using p2_less_iff [of b a] by (auto simp del: p2_less_iff simp: not_less [symmetric])

lemma p2_add: "(2::real) powi (a + b) = 2 powi a * 2 powi b"
  by (simp add: power_int_add)

lemma p2_diff: "(2::real) powi (a - b) = 2 powi a / 2 powi b"
  by (simp add: power_int_diff)

lemma p2_nat: "0 \<le> a \<Longrightarrow> (2::real) powi a = of_int (2 ^ nat a)"
  by (simp add: power_int_nonneg_exp)

lemma flog2_bounds:
  assumes "0 < x"
  shows "2 powi flog2 x \<le> x" and "x < 2 powi (flog2 x + 1)"
proof -
  have "2 powi flog2 x \<le> x \<and> x < 2 powi (flog2 x + 1)"
  proof (cases "1 \<le> x")
    case True
    define n where "n = \<lfloor>x\<rfloor>"
    have n: "0 < n" using True by (simp add: n_def)
    have b: "2 ^ nat (bitlen n - 1) \<le> n" "n < 2 ^ nat (bitlen n)"
      using bitlen_bounds [OF n] by auto
    have k: "1 \<le> bitlen n" using n by (auto simp: bitlen_alt_def)
    have e: "flog2 x = bitlen n - 1" using True by (simp add: flog2_def n_def)
    have "real_of_int (2 ^ nat (bitlen n - 1)) \<le> of_int n" using b(1) of_int_le_iff by blast
    also have "\<dots> \<le> x" by (simp add: n_def)
    finally have lo: "2 powi flog2 x \<le> x" using k by (simp add: e power_int_nonneg_exp)
    have "n + 1 \<le> 2 ^ nat (bitlen n)" using b(2) by simp
    then have "real_of_int (n + 1) \<le> real_of_int (2 ^ nat (bitlen n))" using of_int_le_iff by blast
    moreover have "x < of_int (n + 1)" by (simp add: n_def)
    ultimately have "x < 2 ^ nat (bitlen n)" by simp
    then have hi: "x < 2 powi (flog2 x + 1)" using k by (simp add: e power_int_nonneg_exp)
    from lo hi show ?thesis ..
  next
    case False
    define y where "y = 1 / x"
    have y: "1 < y" using False assms by (simp add: y_def)
    define m where "m = \<lceil>y\<rceil> - 1"
    have m: "0 < m" using y by (simp add: m_def)
    have my: "of_int m < y" "y \<le> of_int m + 1" by (simp_all add: m_def) linarith
    have b: "2 ^ nat (bitlen m - 1) \<le> m" "m < 2 ^ nat (bitlen m)"
      using bitlen_bounds [OF m] by auto
    have k: "1 \<le> bitlen m" using m by (auto simp: bitlen_alt_def)
    have e: "flog2 x = - bitlen m" using False by (simp add: flog2_def m_def y_def)
    have "m + 1 \<le> 2 ^ nat (bitlen m)" using b(2) by simp
    then have "real_of_int (m + 1) \<le> real_of_int (2 ^ nat (bitlen m))" using of_int_le_iff by blast
    then have "y \<le> 2 ^ nat (bitlen m)" using my(2) by simp
    then have "1 / 2 ^ nat (bitlen m) \<le> x" using assms y
      by (simp add: y_def field_simps)
    moreover have "2 powi (- bitlen m) = (1::real) / 2 ^ nat (bitlen m)"
      using k by (simp add: power_int_minus_divide power_int_nonneg_exp)
    ultimately have lo: "2 powi flog2 x \<le> x" by (simp add: e)
    have "(2::real) ^ nat (bitlen m - 1) \<le> of_int m" using b(1) by simp
    then have "2 ^ nat (bitlen m - 1) < y" using my(1) by linarith
    then have "x < 1 / 2 ^ nat (bitlen m - 1)" using assms
      by (simp add: y_def field_simps)
    moreover have "2 powi (- bitlen m + 1) = (1::real) / 2 ^ nat (bitlen m - 1)"
    proof -
      have "- bitlen m + 1 = - (bitlen m - 1)" by simp
      then show ?thesis using k 
        by (simp only: power_int_minus_divide) (simp add: power_int_nonneg_exp)
    qed
    ultimately have hi: "x < 2 powi (flog2 x + 1)" by (simp add: e)
    from lo hi show ?thesis ..
  qed
  then show "2 powi flog2 x \<le> x" and "x < 2 powi (flog2 x + 1)" by auto
qed

lemma flog2_unique:
  assumes "0 < x" "2 powi k \<le> x" "x < 2 powi (k + 1)"
  shows "flog2 x = k"
proof -
  have "(2::real) powi k < 2 powi (flog2 x + 1)"
    using assms(2) flog2_bounds(2) [OF assms(1)] by linarith
  then have "k < flog2 x + 1" by simp
  moreover have "(2::real) powi flog2 x < 2 powi (k + 1)"
    using assms(3) flog2_bounds(1) [OF assms(1)] by linarith
  then have "flog2 x < k + 1" by simp
  ultimately show ?thesis by simp
qed

lemma flog2_mono:
  assumes "0 < x" "x \<le> y"
  shows "flog2 x \<le> flog2 y"
proof -
  have "(2::real) powi flog2 x < 2 powi (flog2 y + 1)"
    using flog2_bounds(1) [OF assms(1)] flog2_bounds(2) [of y] assms by linarith
  then show ?thesis by simp
qed

subsection \<open>Rounding to the nearest integer, ties to even\<close>

lemma round_even_cases:
  "(round_even x = \<lfloor>x\<rfloor> \<and> x - of_int \<lfloor>x\<rfloor> \<le> 1 / 2) \<or>
   (round_even x = \<lfloor>x\<rfloor> + 1 \<and> 1 / 2 \<le> x - of_int \<lfloor>x\<rfloor>)"
  unfolding round_even_def Let_def by (cases "x - of_int \<lfloor>x\<rfloor> < 1 / 2"; cases "1 / 2 < x - of_int \<lfloor>x\<rfloor>"; cases "even \<lfloor>x\<rfloor>"; simp)

lemma round_even_upper: "of_int (round_even x) \<le> x + 1 / 2"
  using round_even_cases [of x] by (auto; linarith)

lemma round_even_lower: "x - 1 / 2 \<le> of_int (round_even x)"
  using round_even_cases [of x] by (auto; linarith)

lemma round_even_of_int [simp]: "round_even (of_int n) = n"
  by (simp add: round_even_def)

lemma round_even_mono:
  assumes "x \<le> y"
  shows "round_even x \<le> round_even y"
proof (cases "\<lfloor>x\<rfloor> = \<lfloor>y\<rfloor>")
  case True
  then show ?thesis using assms by (auto simp: round_even_def Let_def)
next
  case False
  then have "\<lfloor>x\<rfloor> < \<lfloor>y\<rfloor>" using assms floor_mono [of x y] by linarith
  moreover have "round_even x \<le> \<lfloor>x\<rfloor> + 1" by (simp add: round_even_def Let_def)
  moreover have "\<lfloor>y\<rfloor> \<le> round_even y" by (simp add: round_even_def Let_def)
  ultimately show ?thesis by linarith
qed

lemma round_even_ge: "of_int n \<le> x \<Longrightarrow> n \<le> round_even x"
  using round_even_mono [of "of_int n" x] by simp

lemma round_even_le: "x \<le> of_int n \<Longrightarrow> round_even x \<le> n"
  using round_even_mono [of x "of_int n"] by simp

lemma round_even_minus: "round_even (- x) = - round_even x"
proof (cases "x = of_int \<lfloor>x\<rfloor>")
  case True
  then obtain n where "x = of_int n" ..
  then show ?thesis by (simp add: round_even_def flip: of_int_minus)
next
  case False
  then have fl: "\<lfloor>- x\<rfloor> = - \<lfloor>x\<rfloor> - 1" by linarith
  have d: "0 < x - of_int \<lfloor>x\<rfloor>" using False by linarith
  show ?thesis
    using d by (auto simp: round_even_def Let_def fl)
qed

subsection \<open>The binary32 grid\<close>

lemma fexp_minus [simp]: "fexp (- x) = fexp x"
  by (simp add: fexp_def)

lemma fexp_abs [simp]: "fexp \<bar>x\<bar> = fexp x"
  by (simp add: fexp_def)

lemma fexp_ge: "- 149 \<le> fexp x"
  by (simp add: fexp_def)

lemma rnd_0 [simp]: "rnd 0 = 0"
  by (simp add: rnd_def)

lemma rnd_minus: "rnd (- x) = - rnd x"
  by (simp add: rnd_def round_even_minus)

lemma fexp_upper:
  assumes "x \<noteq> 0"
  shows "\<bar>x\<bar> < 2 powi (fexp x + 24)"
proof -
  have "\<bar>x\<bar> < 2 powi (flog2 \<bar>x\<bar> + 1)" using assms by (intro flog2_bounds) simp
  also have "\<dots> \<le> 2 powi (fexp x + 24)" by (simp add: fexp_def)
  finally show ?thesis .
qed

lemma fexp_lower:
  assumes "x \<noteq> 0" "- 149 < fexp x"
  shows "2 powi (fexp x + 23) \<le> \<bar>x\<bar>"
proof -
  have "fexp x = flog2 \<bar>x\<bar> - 23" using assms(2) by (simp add: fexp_def max_def split: if_splits)
  then have "fexp x + 23 = flog2 \<bar>x\<bar>" by simp
  then show ?thesis using flog2_bounds(1) [of "\<bar>x\<bar>"] assms(1) by simp
qed

lemma fexp_mono:
  assumes "0 < x" "x \<le> y"
  shows "fexp x \<le> fexp y"
  using flog2_mono [of "\<bar>x\<bar>" "\<bar>y\<bar>"] assms by (simp add: fexp_def max_def)

lemma rnd_fix:
  assumes "repr x"
  shows "rnd x = x"
proof (cases "x = 0")
  case True
  then show ?thesis by simp
next
  case False
  from assms obtain m e where x: "x = of_int m * 2 powi e" and m: "\<bar>m\<bar> < 2 ^ 24" and e: "- 149 \<le> e"
    by (auto simp: repr_def)
  have "real_of_int \<bar>m\<bar> < 2 ^ 24" using m by (metis of_int_less_numeral_power_cancel_iff)
  then have "\<bar>x\<bar> < 2 ^ 24 * 2 powi e" by (simp add: x abs_mult)
  also have "\<dots> = 2 powi (e + 24)" by (simp add: p2_add)
  finally have up: "\<bar>x\<bar> < 2 powi (e + 24)" .
  have "(2::real) powi flog2 \<bar>x\<bar> < 2 powi (e + 24)"
    using flog2_bounds(1) [of "\<bar>x\<bar>"] False up by linarith
  then have "flog2 \<bar>x\<bar> < e + 24" by simp
  then have fe: "fexp x \<le> e" using e by (simp add: fexp_def)
  define f where "f = fexp x"
  define k where "k = nat (e - f)"
  have ek: "e = f + int k" using fe by (simp add: k_def f_def)
  have xf: "x = of_int m * (2 powi int k * 2 powi f)"
    unfolding x ek by (simp add: p2_add)
  have "x / 2 powi f = of_int (m * 2 ^ k)"
    by (subst xf) simp
  then have "round_even (x / 2 powi f) = m * 2 ^ k" by (simp only: round_even_of_int)
  then have "rnd x = of_int (m * 2 ^ k) * 2 powi f" using False by (simp add: rnd_def f_def)
  also have "\<dots> = of_int m * (2 powi int k * 2 powi f)" by simp
  also have "\<dots> = x" by (rule xf [symmetric])
  finally show ?thesis .
qed

lemma rnd_quot_bound:
  assumes "x \<noteq> 0"
  shows "\<bar>round_even (x / 2 powi fexp x)\<bar> \<le> 2 ^ 24"
proof -
  have "\<bar>x\<bar> < 2 powi fexp x * 2 ^ 24" using fexp_upper [OF assms] by (simp add: p2_add)
  then have b: "\<bar>x / 2 powi fexp x\<bar> < 2 ^ 24" by (simp add: field_simps)
  have c: "real_of_int (2 ^ 24) = 2 ^ 24" "real_of_int (- (2 ^ 24)) = - (2 ^ 24)" by simp_all
  have "x / 2 powi fexp x \<le> of_int (2 ^ 24)" unfolding c using b by linarith
  then have 1: "round_even (x / 2 powi fexp x) \<le> 2 ^ 24" by (rule round_even_le)
  have "of_int (- (2 ^ 24)) \<le> x / 2 powi fexp x" unfolding c using b by linarith
  then have 2: "- (2 ^ 24) \<le> round_even (x / 2 powi fexp x)" by (rule round_even_ge)
  from 1 2 show ?thesis by simp
qed

lemma rnd_repr: "repr (rnd x)"
proof (cases "x = 0")
  case True
  have "(0::real) = of_int 0 * 2 powi 0" by simp
  then show ?thesis unfolding True rnd_0 repr_def by (intro exI [of _ 0]) simp
next
  case False
  define q where "q = round_even (x / 2 powi fexp x)"
  have r: "rnd x = of_int q * 2 powi fexp x" using False by (simp add: rnd_def q_def)
  have qb: "\<bar>q\<bar> \<le> 2 ^ 24" unfolding q_def by (rule rnd_quot_bound [OF False])
  show ?thesis
  proof (cases "\<bar>q\<bar> < 2 ^ 24")
    case True
    then show ?thesis unfolding repr_def using r fexp_ge by blast
  next
    case False
    then have "q = 2 ^ 24 \<or> q = - (2 ^ 24)" using qb by linarith
    then have "rnd x = of_int (q div 2) * 2 powi (fexp x + 1) \<and> \<bar>q div 2\<bar> < 2 ^ 24"
      by (auto simp: r p2_add)
    moreover have "- 149 \<le> fexp x + 1" using fexp_ge [of x] by simp
    ultimately show ?thesis unfolding repr_def by blast
  qed
qed

lemma rnd_idem [simp]: "rnd (rnd x) = rnd x"
  by (rule rnd_fix) (rule rnd_repr)

lemma repr_iff: "repr x \<longleftrightarrow> rnd x = x"
  using rnd_fix rnd_repr by metis

lemma rnd_mono_pos:
  assumes "0 < x" "x \<le> y"
  shows "rnd x \<le> rnd y"
proof (cases "fexp x = fexp y")
  case True
  have "x / 2 powi fexp y \<le> y / 2 powi fexp y" using assms by (simp add: divide_right_mono)
  then have "round_even (x / 2 powi fexp y) \<le> round_even (y / 2 powi fexp y)"
    by (rule round_even_mono)
  then have "real_of_int (round_even (x / 2 powi fexp y)) * 2 powi fexp y
      \<le> real_of_int (round_even (y / 2 powi fexp y)) * 2 powi fexp y"
    by (simp add: mult_right_mono)
  then show ?thesis using assms by (simp add: rnd_def True)
next
  case False
  then have lt: "fexp x < fexp y" using fexp_mono [OF assms] by simp
  then have ey: "- 149 < fexp y" using fexp_ge [of x] by linarith
  define B :: real where "B = 2 powi (fexp y + 23)"
  have y0: "y \<noteq> 0" "x \<noteq> 0" using assms by auto
  have "B \<le> y" using fexp_lower [OF y0(1) ey] assms by (simp add: B_def)
  then have "of_int (2 ^ 23) \<le> y / 2 powi fexp y" by (simp add: B_def p2_add field_simps)
  then have "2 ^ 23 \<le> round_even (y / 2 powi fexp y)" by (rule round_even_ge)
  then have "real_of_int (2 ^ 23) \<le> real_of_int (round_even (y / 2 powi fexp y))"
    using of_int_le_iff by blast
  then have "real_of_int (2 ^ 23) * 2 powi fexp y \<le> real_of_int (round_even (y / 2 powi fexp y)) * 2 powi fexp y"
    by (simp only: mult_right_mono p2_pos less_imp_le)
  then have 1: "B \<le> rnd y" using y0 by (simp add: rnd_def B_def p2_add mult.commute)
  define k where "k = nat (fexp y + 23 - fexp x)"
  have k: "fexp y + 23 = fexp x + int k" using lt by (simp add: k_def)
  have "x < 2 powi (fexp x + 24)" using fexp_upper [OF y0(2)] assms by simp
  also have "\<dots> \<le> B" using lt by (simp add: B_def)
  finally have "x \<le> B" by simp
  then have "x / 2 powi fexp x \<le> B / 2 powi fexp x" by (simp add: divide_right_mono)
  also have "B / 2 powi fexp x = of_int (2 ^ k)" by (simp add: B_def k p2_add)
  finally have "round_even (x / 2 powi fexp x) \<le> 2 ^ k" by (rule round_even_le)
  then have "real_of_int (round_even (x / 2 powi fexp x)) \<le> real_of_int (2 ^ k)"
    using of_int_le_iff by blast
  then have "real_of_int (round_even (x / 2 powi fexp x)) * 2 powi fexp x \<le> real_of_int (2 ^ k) * 2 powi fexp x"
    by (simp only: mult_right_mono p2_pos less_imp_le)
  also have "real_of_int (2 ^ k) * 2 powi fexp x = B" by (simp add: B_def k p2_add)
  finally have 2: "rnd x \<le> B" using y0 by (simp add: rnd_def)
  from 1 2 show ?thesis by linarith
qed

lemma rnd_nonneg: 
  assumes "0 \<le> x" shows "0 \<le> rnd x"
proof -
  have "0 \<le> round_even (x / 2 powi fexp x)"
    by (rule round_even_ge) (use assms in simp)
  then show ?thesis by (simp add: rnd_def)
qed

lemma rnd_mono:
  assumes "x \<le> y"
  shows "rnd x \<le> rnd y"
proof -
  consider "0 < x" | "y < 0" | "x \<le> 0" "0 \<le> y" by linarith
  then show ?thesis
  proof cases
    case 1
    then show ?thesis using assms by (rule rnd_mono_pos)
  next
    case 2
    then have "rnd (- y) \<le> rnd (- x)" using assms by (intro rnd_mono_pos) auto
    then show ?thesis by (simp add: rnd_minus)
  next
    case 3
    have "0 \<le> rnd y" using 3 by (intro rnd_nonneg)
    moreover have "0 \<le> rnd (- x)" using 3 by (intro rnd_nonneg) simp
    ultimately show ?thesis by (simp add: rnd_minus)
  qed
qed

lemma rnd_error: "\<bar>rnd x - x\<bar> \<le> 2 powi fexp x / 2"
proof (cases "x = 0")
  case True
  then show ?thesis by simp
next
  case False
  define z where "z = x / 2 powi fexp x"
  have x: "x = z * 2 powi fexp x" by (simp add: z_def)
  have "\<bar>of_int (round_even z) - z\<bar> \<le> 1 / 2"
    using round_even_upper [of z] round_even_lower [of z] by linarith
  then have "\<bar>of_int (round_even z) - z\<bar> * 2 powi fexp x \<le> 1 / 2 * 2 powi fexp x"
    by (simp only: mult_right_mono p2_pos less_imp_le)
  moreover have "rnd x - x = (of_int (round_even z) - z) * 2 powi fexp x"
    using False by (simp add: rnd_def z_def algebra_simps)
  ultimately show ?thesis by (simp add: abs_mult)
qed

lemma repr_double: "repr x \<Longrightarrow> repr (2 * x)"
proof -
  assume "repr x"
  then obtain m e where x: "x = of_int m * 2 powi e" and m: "\<bar>m\<bar> < 2 ^ 24" and e: "- 149 \<le> e"
    by (auto simp: repr_def)
  have "2 * x = of_int m * 2 powi (e + 1)" by (simp add: x p2_add)
  moreover have "- 149 \<le> e + 1" using e by simp
  ultimately show ?thesis unfolding repr_def using m by blast
qed

lemma repr_of_int: "\<bar>n\<bar> < 2 ^ 24 \<Longrightarrow> repr (of_int n)"
  unfolding repr_def by (intro exI [of _ n] exI [of _ 0]) simp

section \<open>Block size and block counts\<close>

lemma wrap_signed_id:
  assumes "- (2 ^ (w - 1)) \<le> x" "x < 2 ^ (w - 1)" "0 < w"
  shows "wrap_signed w x = x"
proof -
  have "(2::int) ^ w = 2 * 2 ^ (w - 1)" using assms(3) by (cases w) simp_all
  then have "(x + 2 ^ (w - 1)) mod 2 ^ w = x + 2 ^ (w - 1)"
    using assms by (intro mod_pos_pos_trivial) auto
  then show ?thesis by (simp add: wrap_signed_def)
qed

lemma quot_nonneg: "0 \<le> a \<Longrightarrow> 0 < b \<Longrightarrow> quot a b = a div b"
  by (simp add: quot_def)

lemma to_size_t_id: "0 \<le> x \<Longrightarrow> x < 2 ^ 64 \<Longrightarrow> to_size_t x = nat x"
  by (simp add: to_size_t_def)

lemma ceiling_div_int:
  assumes "0 < b"
  shows "\<lceil>real_of_int a / real_of_int b\<rceil> = (a + b - 1) div b"
proof -
  define q where "q = (a + b - 1) div b"
  define r where "r = (a + b - 1) mod b"
  have r: "0 \<le> r" "r < b" using assms by (simp_all add: r_def)
  have "a + b - 1 = q * b + r" by (simp add: q_def r_def)
  then have a: "a = q * b + r - b + 1" by simp
  have "a \<le> q * b" using a r by linarith
  then have "real_of_int a \<le> real_of_int (q * b)" using of_int_le_iff by blast
  then have 1: "real_of_int a / real_of_int b \<le> of_int q"
    using assms by (simp add: field_simps)
  have "(q - 1) * b < a" using a r by (simp add: algebra_simps)
  then have "real_of_int ((q - 1) * b) < real_of_int a" using of_int_less_iff by blast
  then have 2: "of_int q - 1 < real_of_int a / real_of_int b"
    using assms by (simp add: field_simps)
  have "\<lceil>real_of_int a / real_of_int b\<rceil> = q"
    using 1 2 by (intro ceiling_unique) auto
  then show ?thesis by (simp add: q_def)
qed

lemma num_blocks_of_Inr:
  assumes "0 \<le> frames" "0 < block_size" "frames + block_size < 2 ^ 63"
  shows "num_blocks_of frames block_size = Inr (max 1 (nat ((frames + block_size - 1) div block_size)))"
proof -
  have r: "in_range 64 (frames + block_size)" "in_range 64 (frames + block_size - 1)"
    using assms by (simp_all add: in_range_def)
  have q: "quot (frames + block_size - 1) block_size = (frames + block_size - 1) div block_size"
    using assms by (intro quot_nonneg) auto
  have nn: "0 \<le> (frames + block_size - 1) div block_size"
    using assms by (intro pos_imp_zdiv_nonneg_iff [THEN iffD2]) auto
  have "(frames + block_size - 1) div block_size \<le> frames + block_size - 1"
    using zdiv_mono2 [of "frames + block_size - 1" 1 block_size] assms by simp
  then have lt63: "(frames + block_size - 1) div block_size < 2 ^ 63" using assms by linarith
  moreover have "(2::int) ^ 63 < 2 ^ 64" by simp
  ultimately have lt: "(frames + block_size - 1) div block_size < 2 ^ 64" by linarith
  have rq: "in_range 64 ((frames + block_size - 1) div block_size)"
    using nn lt63 by (simp add: in_range_def)
  show ?thesis
    using assms(2) r rq by (simp add: num_blocks_of_def q to_size_t_id [OF nn lt])
qed

lemma num_blocks_of_ceiling:
  assumes "0 \<le> frames" "0 < block_size" "frames + block_size < 2 ^ 63"
  shows "\<exists>n. num_blocks_of frames block_size = Inr n \<and> 1 \<le> n \<and>
    int n = max 1 \<lceil>real_of_int frames / real_of_int block_size\<rceil>"
proof -
  define k where "k = (frames + block_size - 1) div block_size"
  have nn: "0 \<le> k"
    unfolding k_def using assms by (intro pos_imp_zdiv_nonneg_iff [THEN iffD2]) auto
  have "int (max 1 (nat k)) = max 1 k" using nn by (auto simp: max_def)
  then have "int (max 1 (nat k)) = max 1 \<lceil>real_of_int frames / real_of_int block_size\<rceil>"
    by (simp add: ceiling_div_int [OF assms(2)] k_def)
  moreover have "1 \<le> max 1 (nat k)" by simp
  ultimately show ?thesis
    using num_blocks_of_Inr [OF assms] unfolding k_def by blast
qed

lemma num_blocks_of_pos: "num_blocks_of frames block_size = Inr n \<Longrightarrow> 1 \<le> n"
  by (auto simp: num_blocks_of_def split: if_splits)

lemma num_top_blocks_bounds:
  assumes "1 \<le> num_blocks"
  shows "1 \<le> num_top_blocks_of num_blocks" and "num_top_blocks_of num_blocks \<le> num_blocks"
  using assms by (auto simp: num_top_blocks_of_def)

lemma round32_Fin:
  assumes "\<bar>rnd x\<bar> < 2 ^ 128" "0 \<le> x \<or> rnd x \<noteq> 0"
  shows "round32 x = Fin (rnd x)"
  using assms by (auto simp: round32_def Let_def)

lemma round32_between:
  assumes "lo \<le> x" "x \<le> hi" "0 < rnd lo" "rnd hi < 2 ^ 128"
  shows "\<exists>v. round32 x = Fin v \<and> rnd lo \<le> v \<and> v \<le> rnd hi"
proof -
  have 1: "rnd lo \<le> rnd x" using assms(1) by (rule rnd_mono)
  have 2: "rnd x \<le> rnd hi" using assms(2) by (rule rnd_mono)
  have "\<bar>rnd x\<bar> < 2 ^ 128" using 1 2 assms(3,4) by linarith
  moreover have "rnd x \<noteq> 0" using 1 assms(3) by linarith
  ultimately have "round32 x = Fin (rnd x)" by (intro round32_Fin) auto
  then show ?thesis using 1 2 by blast
qed

lemma fmul_Fin_pos: "0 < a \<Longrightarrow> 0 < b \<Longrightarrow> fmul (Fin a) (Fin b) = round32 (a * b)"
  by (simp add: fmul_def)

lemma fdiv_Fin_pos: "0 < a \<Longrightarrow> 0 < b \<Longrightarrow> fdiv (Fin a) (Fin b) = round32 (a / b)"
  by (simp add: fdiv_def)

lemma round_away_mono:
  assumes "x \<le> y"
  shows "round_away x \<le> round_away y"
proof -
  have "\<lfloor>x + 1 / 2\<rfloor> \<le> \<lfloor>y + 1 / 2\<rfloor>" using assms by (intro floor_mono) simp
  moreover have "\<lfloor>- y + 1 / 2\<rfloor> \<le> \<lfloor>- x + 1 / 2\<rfloor>" using assms by (intro floor_mono) simp
  moreover have "x < 0 \<Longrightarrow> 0 \<le> y \<Longrightarrow> - \<lfloor>- x + 1 / 2\<rfloor> \<le> \<lfloor>y + 1 / 2\<rfloor>"
  proof -
    assume "x < 0" "0 \<le> y"
    then have "0 \<le> \<lfloor>- x + 1 / 2\<rfloor>" "0 \<le> \<lfloor>y + 1 / 2\<rfloor>" by simp_all
    then show ?thesis by linarith
  qed
  ultimately show ?thesis using assms by (auto simp: round_away_def)
qed

lemma rnd_consts:
  "rnd 1 = 1" "rnd 714000000 = 714000000"
  "rnd 3 = 3" "rnd 2142000000 = 2142000000"
  "rnd 132480 = 132480" "rnd 94590720000000 = 94590723948544"
  "rnd 2144914432 = 2144914432"
  by code_simp+

lemma f32_44100: "f32_of_int 44100 = Fin 44100"
  by code_simp

lemma GetBlockSize_range:
  assumes "1 \<le> sf_samplerate inp" "sf_samplerate inp \<le> 714000000"
  shows "3 \<le> GetBlockSize inp" and "GetBlockSize inp \<le> 2144914432"
proof -
  define sr where "sr = sf_samplerate inp"
  have sr: "(1::real) \<le> of_int sr" "real_of_int sr \<le> 714000000"
    using assms by (simp_all add: sr_def)
  obtain a where a: "f32_of_int sr = Fin a" "1 \<le> a" "a \<le> 714000000"
    using round32_between [OF sr] by (auto simp: f32_of_int_def rnd_consts)
  have "3 \<le> 3 * a" "3 * a \<le> 2142000000" using a by simp_all
  from round32_between [OF this]
  obtain b where b: "fmul (Fin 3) (Fin a) = Fin b" "3 \<le> b" "b \<le> 2142000000"
    using a by (auto simp: fmul_Fin_pos rnd_consts)
  have "132480 \<le> b * 44160" "b * 44160 \<le> 94590720000000" using b by simp_all
  from round32_between [OF this]
  obtain c where c: "fmul (Fin b) (Fin 44160) = Fin c" "132480 \<le> c" "c \<le> 94590723948544"
    using b by (auto simp: fmul_Fin_pos rnd_consts)
  have "3 \<le> c / 44100" "c / 44100 \<le> 2144914432" using c by simp_all
  from round32_between [OF this]
  obtain d where d: "fdiv (Fin c) (Fin 44100) = Fin d" "3 \<le> d" "d \<le> 2144914432"
    using c by (auto simp: fdiv_Fin_pos rnd_consts)
  have "round_away 3 \<le> round_away d" "round_away d \<le> round_away 2144914432"
    using d by (auto intro: round_away_mono)
  then have r: "3 \<le> round_away d" "round_away d \<le> 2144914432"
    by (simp_all add: round_away_def)
  have "wrap_signed 64 (round_away d) = round_away d" using r by (intro wrap_signed_id) auto
  moreover have "wrap_signed 32 (round_away d) = round_away d" using r by (intro wrap_signed_id) auto
  ultimately have "GetBlockSize inp = round_away d"
    by (simp add: GetBlockSize_def sr_def [symmetric] a b c d f32_44100)
  then show "3 \<le> GetBlockSize inp" and "GetBlockSize inp \<le> 2144914432" using r by simp_all
qed

lemma rnd_consts_stereo:
  "rnd 357000000 = 357000000" "rnd 1071000000 = 1071000000"
  "rnd 47295360000000 = 47295361974272" "rnd 1072457216 = 1072457216"
  by code_simp+

lemma GetBlockSize_range_stereo:
  assumes "1 \<le> sf_samplerate inp" "sf_samplerate inp \<le> 357000000"
  shows "3 \<le> GetBlockSize inp" and "GetBlockSize inp \<le> 1072457216"
proof -
  define sr where "sr = sf_samplerate inp"
  have sr: "(1::real) \<le> of_int sr" "real_of_int sr \<le> 357000000"
    using assms by (simp_all add: sr_def)
  obtain a where a: "f32_of_int sr = Fin a" "1 \<le> a" "a \<le> 357000000"
    using round32_between [OF sr] by (auto simp: f32_of_int_def rnd_consts rnd_consts_stereo)
  have "3 \<le> 3 * a" "3 * a \<le> 1071000000" using a by simp_all
  from round32_between [OF this]
  obtain b where b: "fmul (Fin 3) (Fin a) = Fin b" "3 \<le> b" "b \<le> 1071000000"
    using a by (auto simp: fmul_Fin_pos rnd_consts rnd_consts_stereo)
  have "132480 \<le> b * 44160" "b * 44160 \<le> 47295360000000" using b by simp_all
  from round32_between [OF this]
  obtain c where c: "fmul (Fin b) (Fin 44160) = Fin c" "132480 \<le> c" "c \<le> 47295361974272"
    using b by (auto simp: fmul_Fin_pos rnd_consts rnd_consts_stereo)
  have "3 \<le> c / 44100" "c / 44100 \<le> 1072457216" using c by simp_all
  from round32_between [OF this]
  obtain d where d: "fdiv (Fin c) (Fin 44100) = Fin d" "3 \<le> d" "d \<le> 1072457216"
    using c by (auto simp: fdiv_Fin_pos rnd_consts rnd_consts_stereo)
  have "round_away 3 \<le> round_away d" "round_away d \<le> round_away 1072457216"
    using d by (auto intro: round_away_mono)
  then have r: "3 \<le> round_away d" "round_away d \<le> 1072457216"
    by (simp_all add: round_away_def)
  have "wrap_signed 64 (round_away d) = round_away d" using r by (intro wrap_signed_id) auto
  moreover have "wrap_signed 32 (round_away d) = round_away d" using r by (intro wrap_signed_id) auto
  ultimately have "GetBlockSize inp = round_away d"
    by (simp add: GetBlockSize_def sr_def [symmetric] a b c d f32_44100)
  then show "3 \<le> GetBlockSize inp" and "GetBlockSize inp \<le> 1072457216" using r by simp_all
qed

lemma block_float_44100:
  "fdiv (fmul (fmul (Fin 3) (f32_of_int 44100)) (Fin 44160)) (f32_of_int 44100) = Fin 132480"
  by code_simp

lemma block_float_1GHz:
  "fdiv (fmul (fmul (Fin 3) (f32_of_int 1000000000)) (Fin 44160)) (f32_of_int 44100) = Fin 3004081664"
  by code_simp

lemma block_float_zero:
  "fdiv (fmul (fmul (Fin 3) (f32_of_int 1429710528)) (Fin 44160)) (f32_of_int 44100) = Fin 4294967296"
  by code_simp

lemma block_float_400MHz:
  "fdiv (fmul (fmul (Fin 3) (f32_of_int 400000000)) (Fin 44160)) (f32_of_int 44100) = Fin 1201632640"
  by code_simp

lemma GetBlockSize_cd: "GetBlockSize cd_stream = 132480"
  by (simp add: GetBlockSize_def cd_stream_def block_float_44100 round_away_def wrap_signed_def)

text \<open>
  C4.  At a sample rate of 44100 the block size is exactly 132480 frames: every
  single-precision operation of \<open>GetBlockSize\<close> is exact there (\<open>3 * 44100\<close> and
  \<open>132300 * 44160 = 5842368000 = 11410875 * 2 ^ 9\<close> are binary32 numbers, and so is the
  quotient by 44100).
\<close>

theorem GetBlockSize_44100: "GetBlockSize (inp\<lparr>sf_samplerate := 44100\<rparr>) = 132480"
  by (simp add: GetBlockSize_def block_float_44100 round_away_def wrap_signed_def)

text \<open>
  C5, as stated, for every non-negative frame count and every positive sample rate: it
  fails at a sample rate of 1 GHz.  The rounded block size 3004081664 does not fit the
  \<open>int\<close> that \<open>GetBlockSize\<close> returns and becomes negative, and 3000000000 frames then
  give a quotient of \<open>- 1\<close>, which is \<open>2 ^ 64 - 1\<close> blocks as a \<open>std::size_t\<close>, where the
  claimed value is 1.
\<close>

theorem block_counts_counterexample:
  "0 < sf_samplerate gigahertz_stream \<and> 0 \<le> sf_frames gigahertz_stream \<and>
   GetBlockSize gigahertz_stream = - 1290885632 \<and>
   num_blocks_of (sf_frames gigahertz_stream) (GetBlockSize gigahertz_stream)
     = Inr 18446744073709551615 \<and>
   max 1 \<lceil>real_of_int (sf_frames gigahertz_stream) / real_of_int (GetBlockSize gigahertz_stream)\<rceil> = 1"
proof -
  have bs: "GetBlockSize gigahertz_stream = - 1290885632"
    by (simp add: GetBlockSize_def gigahertz_stream_def block_float_1GHz round_away_def wrap_signed_def)
  have nb: "num_blocks_of 3000000000 (- 1290885632) = Inr 18446744073709551615"
    by (simp add: num_blocks_of_def in_range_def quot_def to_size_t_def)
  have "\<lceil>(3000000000::real) / (- 1290885632)\<rceil> \<le> 0"
    by (simp add: ceiling_le_iff)
  then have "max 1 \<lceil>(3000000000::real) / (- 1290885632)\<rceil> = 1" by simp
  then show ?thesis using nb by (simp add: bs) (simp add: gigahertz_stream_def)
qed

text \<open>
  C5, amended: for every sample rate from 1 to 714000000 (where the block size fits an
  \<open>int\<close>) and every frame count from 0 to \<open>2 ^ 62\<close> (where \<open>frames + block_size - 1\<close> fits
  an \<open>sf_count_t\<close>), the block size is at least 1, \<open>num_blocks\<close> is
  \<open>max (1, ceil (total_frames / block_size))\<close>, \<open>num_top_blocks\<close> is
  \<open>max (1, num_blocks / 5)\<close> with integer division, and
  \<open>1 \<le> num_top_blocks \<le> num_blocks\<close>.
\<close>

theorem block_counts:
  assumes "1 \<le> sf_samplerate inp" "sf_samplerate inp \<le> 714000000"
    and "0 \<le> sf_frames inp" "sf_frames inp \<le> 2 ^ 62"
  shows "1 \<le> GetBlockSize inp \<and>
    (\<exists>num_blocks.
       num_blocks_of (sf_frames inp) (GetBlockSize inp) = Inr num_blocks \<and>
       int num_blocks = max 1 \<lceil>real_of_int (sf_frames inp) / real_of_int (GetBlockSize inp)\<rceil> \<and>
       num_top_blocks_of num_blocks = max 1 (num_blocks div 5) \<and>
       1 \<le> num_top_blocks_of num_blocks \<and>
       num_top_blocks_of num_blocks \<le> num_blocks)"
proof -
  have bs: "3 \<le> GetBlockSize inp" "GetBlockSize inp \<le> 2144914432"
    using GetBlockSize_range [OF assms(1,2)] by auto
  have "(2::int) ^ 62 + 2144914432 < 2 ^ 63" by simp
  then have "sf_frames inp + GetBlockSize inp < 2 ^ 63" using assms(4) bs(2) by linarith
  then obtain n where nb: "num_blocks_of (sf_frames inp) (GetBlockSize inp) = Inr n" "1 \<le> n"
      "int n = max 1 \<lceil>real_of_int (sf_frames inp) / real_of_int (GetBlockSize inp)\<rceil>"
    using num_blocks_of_ceiling [of "sf_frames inp" "GetBlockSize inp"] assms(3) bs(1) by auto
  have "num_top_blocks_of n = max 1 (n div 5)" "1 \<le> num_top_blocks_of n" "num_top_blocks_of n \<le> n"
    using nb(2) by (simp_all add: num_top_blocks_of_def)
  then show ?thesis using nb bs(1) by auto
qed

theorem block_counts_witness:
  "1 \<le> sf_samplerate cd_stream \<and> sf_samplerate cd_stream \<le> 714000000 \<and>
   0 \<le> sf_frames cd_stream \<and> sf_frames cd_stream \<le> 2 ^ 62 \<and>
   GetBlockSize cd_stream = 132480 \<and>
   num_blocks_of (sf_frames cd_stream) (GetBlockSize cd_stream) = Inr 8 \<and>
   num_top_blocks_of 8 = 1"
proof -
  have h: "1 \<le> sf_samplerate cd_stream" "sf_samplerate cd_stream \<le> 714000000"
    "0 \<le> sf_frames cd_stream" "sf_frames cd_stream \<le> 2 ^ 62"
    by (simp_all add: cd_stream_def)
  have c: "\<lceil>(1000000::real) / 132480\<rceil> = 8" by (simp add: ceiling_eq_iff)
  have f: "sf_frames cd_stream = 1000000" by (simp add: cd_stream_def)
  from block_counts [OF h] have "num_blocks_of (sf_frames cd_stream) (GetBlockSize cd_stream) = Inr 8"
    by (auto simp: GetBlockSize_cd f c)
  then show ?thesis using h by (simp add: GetBlockSize_cd num_top_blocks_of_def)
qed

section \<open>The album rating\<close>

lemma fadd_nonfinite: "\<not> isfinite a \<or> \<not> isfinite b \<Longrightarrow> \<not> isfinite (fadd a b)"
  by (cases a; cases b) (auto simp: isfinite_def fadd_def)

lemma foldl_fadd_nonfinite: "\<not> isfinite acc \<Longrightarrow> \<not> isfinite (foldl fadd acc xs)"
  by (induction xs arbitrary: acc) (simp_all add: fadd_nonfinite)

lemma foldl_fadd_poisoned:
  "x \<in> set xs \<Longrightarrow> \<not> isfinite x \<Longrightarrow> \<not> isfinite (foldl fadd acc xs)"
proof (induction xs arbitrary: acc)
  case Nil
  then show ?case by simp
next
  case (Cons y ys)
  show ?case
  proof (cases "x = y")
    case True
    then have "\<not> isfinite (fadd acc y)" using Cons.prems(2) by (simp add: fadd_nonfinite)
    then show ?thesis by (simp add: foldl_fadd_nonfinite)
  next
    case False
    then show ?thesis using Cons by simp
  qed
qed

lemma fdiv_nonfinite: "\<not> isfinite a \<Longrightarrow> \<not> isfinite (fdiv a b)"
  by (cases a; cases b) (auto simp: isfinite_def fdiv_def signed_inf_def)

lemma fround_nonfinite: "\<not> isfinite a \<Longrightarrow> fround a = a"
  by (cases a) (auto simp: isfinite_def)

lemma album_rating_nonfinite:
  assumes "x \<in> set finals" "\<not> isfinite x"
  shows "\<not> isfinite (album_rating finals)"
proof -
  have s: "\<not> isfinite (foldl fadd (Fin 0) finals)"
    using assms by (rule foldl_fadd_poisoned)
  then have "\<not> isfinite (fdiv (foldl fadd (Fin 0) finals) (f32_of_nat (length finals)))"
    by (rule fdiv_nonfinite)
  then show ?thesis using s by (simp add: album_rating_def Let_def fround_nonfinite)
qed

lemma rate_tracks_member:
  assumes "rate_tracks P tracks = Some rated" "(filename, inp) \<in> set tracks"
    and "ComputeRating P inp = Inr r"
  shows "(filename, r) \<in> set rated"
  using assms
proof (induction tracks arbitrary: rated)
  case Nil
  then show ?case by simp
next
  case (Cons t tracks)
  obtain fn i where t: "t = (fn, i)" by (cases t)
  from Cons.prems(1) obtain r' rest where r: "ComputeRating P i = Inr r'"
      "rate_tracks P tracks = Some rest" "rated = (fn, r') # rest"
    by (auto simp: t split: sum.splits option.splits)
  show ?case
  proof (cases "(filename, inp) = (fn, i)")
    case True
    then show ?thesis using r Cons.prems(3) by simp
  next
    case False
    then have "(filename, inp) \<in> set tracks" using Cons.prems(2) t by auto
    then have "(filename, r) \<in> set rest" using Cons.IH [OF r(2) _ Cons.prems(3)] by simp
    then show ?thesis using r(3) by simp
  qed
qed

text \<open>
  C8.  When a run rates more than one track and the final rating of at least one track
  is not finite, the album rating (the sum of the final ratings, added up one after the
  other from \<open>0\<close>, divided by the number of tracks and rounded) is not finite either,
  and \<open>main\<close> prints \<open>N/A\<close> for it.
\<close>

theorem album_poisoned:
  assumes "open_tracks files [] = Inr tracks" "1 < length tracks"
    and "rate_tracks P tracks = Some rated"
    and "(filename, inp) \<in> set tracks" "ComputeRating P inp = Inr r" "\<not> isfinite (final_rating r)"
  shows "\<not> isfinite (album_rating (map (\<lambda>(filename, r). final_rating r) rated)) \<and>
    (\<exists>reports. main P files = EXIT_SUCCESS reports (Some NA))"
proof -
  let ?finals = "map (\<lambda>(filename, r). final_rating r) rated"
  have "(filename, r) \<in> set rated"
    using assms(3,4,5) by (rule rate_tracks_member)
  then have "final_rating r \<in> set ?finals" by force
  then have n: "\<not> isfinite (album_rating ?finals)"
    using assms(6) by (rule album_rating_nonfinite)
  show ?thesis
    using n assms(1,2,3) by (simp add: main_def Let_def show_rating_def)
qed

section \<open>Files with more than two channels\<close>

lemma open_tracks_reject:
  assumes "(filename, Some inp) \<in> set files" "2 < sf_channels inp"
  shows "\<exists>e. open_tracks files tracks = Inl e"
  using assms
proof (induction files tracks rule: open_tracks.induct)
  case (1 tracks)
  then show ?case by simp
next
  case (2 filename rest tracks)
  then show ?case by simp
next
  case (3 filename' inp' rest tracks)
  then show ?case by (cases "2 < sf_channels inp'") auto
qed

text \<open>
  C9.  When some file of the command line has more than two channels, \<open>main\<close> ends
  with \<open>EXIT_FAILURE\<close> in its first loop: the outcome is an error and is the same
  whatever the rating functions compute, so none of them has run.  \<open>ComputeRating\<close>
  itself does not look at the channel count beyond \<open>== 1\<close>: given such a file it takes
  the stereo branch, and what it returns (the rating, or the fault) is what
  \<open>ComputeStereoDR\<close> returns.
\<close>

theorem too_many_channels_rejected:
  assumes "(filename, Some inp) \<in> set files" "2 < sf_channels inp"
  shows "(\<exists>e. \<forall>P. main P files = EXIT_FAILURE e) \<and>
    (\<forall>P. map_sum id rating (ComputeRating P inp) =
       map_sum id (\<lambda>(left_dr, right_dr). kStereoRating left_dr right_dr) (ComputeStereoDR P inp))"
proof -
  obtain e where "open_tracks files [] = Inl e"
    using open_tracks_reject [OF assms] by blast
  then have "\<forall>P. main P files = EXIT_FAILURE e" by (simp add: main_def)
  moreover have "\<forall>P. map_sum id rating (ComputeRating P inp) =
       map_sum id (\<lambda>(left_dr, right_dr). kStereoRating left_dr right_dr) (ComputeStereoDR P inp)"
    using assms(2) by (auto simp: ComputeRating_def split: sum.splits)
  ultimately show ?thesis by blast
qed

theorem too_many_channels_rejected_witness:
  "(''surround.wav'', Some surround_stream) \<in> set [(''stereo.wav'', Some cd_stream), (''surround.wav'', Some surround_stream)] \<and>
   2 < sf_channels surround_stream \<and>
   (\<forall>P. main P [(''stereo.wav'', Some cd_stream), (''surround.wav'', Some surround_stream)]
      = EXIT_FAILURE (TooManyChannels ''surround.wav'' 6))"
proof -
  have h: "(''surround.wav'', Some surround_stream) \<in> set [(''stereo.wav'', Some cd_stream), (''surround.wav'', Some surround_stream)]"
    "2 < sf_channels surround_stream"
    by (simp_all add: surround_stream_def)
  from too_many_channels_rejected [OF h] obtain e
    where e: "\<forall>P. main P [(''stereo.wav'', Some cd_stream), (''surround.wav'', Some surround_stream)] = EXIT_FAILURE e"
    by blast
  have "main ref_platform [(''stereo.wav'', Some cd_stream), (''surround.wav'', Some surround_stream)]
      = EXIT_FAILURE (TooManyChannels ''surround.wav'' 6)"
    by (simp add: main_def surround_stream_def cd_stream_def)
  with e have "e = TooManyChannels ''surround.wav'' 6" by simp
  with e h show ?thesis by simp
qed

section \<open>Blocks of silence\<close>

lemma round32_0 [simp]: "round32 0 = Fin 0"
  by (simp add: round32_def)

lemma f32_of_nat_0 [simp]: "f32_of_nat 0 = Fin 0"
  by (simp add: f32_of_nat_def)

lemma rnd_1: "rnd 1 = 1"
  by code_simp

lemma round32_ge_1:
  assumes "1 \<le> x"
  shows "round32 x = PInf \<or> (\<exists>v. round32 x = Fin v \<and> 1 \<le> v)"
proof -
  have "1 \<le> rnd x" using rnd_mono [OF assms] by (simp add: rnd_1)
  then show ?thesis using assms by (auto simp: round32_def Let_def)
qed

lemma f32_of_nat_pos:
  assumes "0 < n"
  shows "f32_of_nat n = PInf \<or> (\<exists>v. f32_of_nat n = Fin v \<and> 1 \<le> v)"
  unfolding f32_of_nat_def using assms by (intro round32_ge_1) simp

lemma fdiv_zero_pos: "0 < n \<Longrightarrow> fdiv (Fin 0) (f32_of_nat n) = Fin 0"
  using f32_of_nat_pos [of n] by (auto simp: fdiv_def signed_zero_def)

lemma fdiv_zero_zero [simp]: "fdiv (Fin 0) (Fin 0) = NaN"
  by (simp add: fdiv_def)

lemma fmul_zero_zero [simp]: "fmul (Fin 0) (Fin 0) = Fin 0"
  by (simp add: fmul_def signed_zero_def)

lemma fadd_zero_zero [simp]: "fadd (Fin 0) (Fin 0) = Fin 0"
  by (simp add: fadd_def)

lemma fmax_zero_zero [simp]: "fmax (Fin 0) (Fin 0) = Fin 0"
  by (simp add: fmax_def)

lemma fabs_zero: "is_zero x \<Longrightarrow> fabs x = Fin 0"
  by (cases x) auto

lemma mul_add_zero:
  "is_zero x \<Longrightarrow> (if fused then ffma x x (Fin 0) else fadd (fmul x x) (Fin 0)) = Fin 0"
  by (cases x) (auto simp: ffma_def fmul_def signed_zero_def)

lemma NaN_ops [simp]:
  "fadd a NaN = NaN" "fadd NaN a = NaN" "fmul a NaN = NaN" "fmul NaN a = NaN"
  "fdiv a NaN = NaN" "fdiv NaN a = NaN" "fround NaN = NaN" "\<not> isfinite NaN"
  by (simp_all add: fadd_def fmul_def fdiv_def isfinite_def)

lemma hn_MulAdd_zero:
  assumes "length v = Lanes d" "\<forall>x\<in>set v. is_zero x"
  shows "hn_MulAdd d v v (hn_Zero d) = hn_Zero d"
proof -
  have "length v = n \<Longrightarrow> \<forall>x\<in>set v. is_zero x \<Longrightarrow>
      map (\<lambda>(x, y, z). if HasFMA d then ffma x y z else fadd (fmul x y) z)
        (zip v (zip v (replicate n (Fin 0)))) = replicate n (Fin 0)" for n
  proof (induction v arbitrary: n)
    case Nil
    then show ?case by simp
  next
    case (Cons a v)
    then obtain m where "n = Suc m" by (cases n) auto
    then show ?case using Cons mul_add_zero [of a "HasFMA d"] by (simp split: if_splits)
  qed
  then show ?thesis using assms by (simp add: hn_MulAdd_def hn_Zero_def)
qed

lemma hn_Max_Abs_zero:
  assumes "length v = Lanes d" "\<forall>x\<in>set v. is_zero x"
  shows "hn_Max (hn_Zero d) (hn_Abs v) = hn_Zero d"
proof -
  have "length v = n \<Longrightarrow> \<forall>x\<in>set v. is_zero x \<Longrightarrow>
      map (\<lambda>(x, y). fmax x y) (zip (replicate n (Fin 0)) (map fabs v)) = replicate n (Fin 0)" for n
  proof (induction v arbitrary: n)
    case Nil
    then show ?case by simp
  next
    case (Cons a v)
    then obtain m where "n = Suc m" by (cases n) auto
    then show ?case using Cons by (simp add: fabs_zero)
  qed
  then show ?thesis using assms by (simp add: hn_Max_def hn_Abs_def hn_Zero_def)
qed

lemma reduce_lanes_zero:
  assumes "f (Fin 0) (Fin 0) = Fin 0"
  shows "reduce_lanes f (replicate n (Fin 0)) = Fin 0"
proof -
  have "foldl f (Fin 0) (replicate m (Fin 0)) = Fin 0" for m
    by (induction m) (simp_all add: assms)
  then show ?thesis by (cases n) simp_all
qed

lemma SumOfLanes_Zero [simp]: "SumOfLanes (hn_Zero d) = Fin 0"
  by (simp add: SumOfLanes_def hn_Zero_def reduce_lanes_zero)

lemma MaxOfLanes_Zero [simp]: "MaxOfLanes (hn_Zero d) = Fin 0"
  by (simp add: MaxOfLanes_def hn_Zero_def reduce_lanes_zero)

lemma Foreach_full_snd:
  assumes "\<And>i. i + N \<le> cnt \<Longrightarrow> func (take N (drop i inp)) s = s"
  shows "snd (Foreach_full N inp cnt func idx s) = s"
  using assms
proof (induction N inp cnt func idx s rule: Foreach_full.induct)
  case (1 N inp cnt func idx s)
  show ?case
  proof (cases "0 < N \<and> idx + N \<le> cnt")
    case True
    then have "func (take N (drop idx inp)) s = s" using "1.prems" by simp
    then show ?thesis
      using True "1.IH" "1.prems" by (subst Foreach_full.simps) simp
  next
    case False
    then show ?thesis by (subst Foreach_full.simps) auto
  qed
qed

lemma Foreach_full_fst:
  assumes "0 < N" "idx \<le> cnt"
  shows "fst (Foreach_full N inp cnt func idx s) \<le> cnt
    \<and> cnt - fst (Foreach_full N inp cnt func idx s) < N"
  using assms
proof (induction N inp cnt func idx s rule: Foreach_full.induct)
  case (1 N inp cnt func idx s)
  show ?case
  proof (cases "idx + N \<le> cnt")
    case True
    then show ?thesis
      using "1.IH" "1.prems" by (subst (1 2) Foreach_full.simps) simp
  next
    case False
    then show ?thesis using "1.prems" by (subst (1 2) Foreach_full.simps) auto
  qed
qed

lemma silent_take: "silent xs \<Longrightarrow> silent (take n xs)"
  by (auto simp: silent_def dest: in_set_takeD)

lemma silent_drop: "silent xs \<Longrightarrow> silent (drop n xs)"
  by (auto simp: silent_def dest: in_set_dropD)

lemma mono_step_zero:
  assumes "length v = Lanes d" "silent v"
  shows "(\<lambda>samples (sums_of_squares, peaks).
            (hn_MulAdd d samples samples sums_of_squares, hn_Max peaks (hn_Abs samples)))
          v (hn_Zero d, hn_Zero d) = (hn_Zero d, hn_Zero d)"
  using assms by (simp add: hn_MulAdd_zero hn_Max_Abs_zero silent_def)

lemma Foreach_zero:
  assumes "0 < Lanes d" "cnt \<le> length inp" "silent inp"
    and step: "\<And>v. length v = Lanes d \<Longrightarrow> silent v \<Longrightarrow> func v s = s"
  shows "Foreach d inp cnt (hn_Zero d) func s = s"
proof -
  have full: "func (take (Lanes d) (drop i inp)) s = s" if "i + Lanes d \<le> cnt" for i
    using that assms(2,3) by (intro step) (simp_all add: silent_take silent_drop)
  obtain idx s' where r: "Foreach_full (Lanes d) inp cnt func 0 s = (idx, s')"
    by (cases "Foreach_full (Lanes d) inp cnt func 0 s")
  have s': "s' = s" using Foreach_full_snd [of "Lanes d" cnt func inp s 0] full r by simp
  have idx: "idx \<le> cnt" "cnt - idx < Lanes d"
    using Foreach_full_fst [of "Lanes d" 0 cnt inp func s] assms(1) r by simp_all
  have "length (LoadNOr (hn_Zero d) (drop idx inp) (cnt - idx)) = Lanes d"
    using idx assms(2) by (simp add: LoadNOr_def hn_Zero_def)
  moreover have "silent (LoadNOr (hn_Zero d) (drop idx inp) (cnt - idx))"
    using assms(3) by (auto simp: LoadNOr_def hn_Zero_def silent_def dest: in_set_takeD in_set_dropD)
  ultimately have "func (LoadNOr (hn_Zero d) (drop idx inp) (cnt - idx)) s = s" by (rule step)
  then show ?thesis by (simp add: Foreach_def r s')
qed

lemma mono_block_silent:
  assumes "0 < Lanes d" "n \<le> length buf" "silent buf" "0 < n"
  shows "mono_block d buf n = (Fin 0, Fin 0)"
proof -
  have "Foreach d buf n (hn_Zero d)
          (\<lambda>samples (sums_of_squares, peaks).
             (hn_MulAdd d samples samples sums_of_squares, hn_Max peaks (hn_Abs samples)))
          (hn_Zero d, hn_Zero d) = (hn_Zero d, hn_Zero d)"
    using assms(1-3) by (rule Foreach_zero) (rule mono_step_zero)
  then show ?thesis using assms(4) by (simp add: mono_block_def fdiv_zero_pos)
qed

lemma mono_block_empty:
  assumes "0 < Lanes d"
  shows "mono_block d [] 0 = (NaN, Fin 0)"
proof -
  have "Foreach d [] 0 (hn_Zero d)
          (\<lambda>samples (sums_of_squares, peaks).
             (hn_MulAdd d samples samples sums_of_squares, hn_Max peaks (hn_Abs samples)))
          (hn_Zero d, hn_Zero d) = (hn_Zero d, hn_Zero d)"
    using assms by (intro Foreach_zero mono_step_zero) (simp_all add: silent_def)
  then show ?thesis by (simp add: mono_block_def)
qed

lemma readf_mono:
  assumes "sf_channels inp = 1" "0 < block_size"
  shows "readf inp block_size =
    ((take (nat block_size) (sf_data inp), min (nat block_size) (length (sf_data inp))),
     inp\<lparr>sf_data := drop (nat block_size) (sf_data inp)\<rparr>)"
  using assms by (auto simp: readf_def Let_def min_def)

lemma mono_blocks_silent:
  assumes "sf_channels inp = 1" "0 < block_size" "0 < Lanes d" "silent (sf_data inp)"
    and "(n - 1) * nat block_size < length (sf_data inp)"
  shows "mono_blocks d block_size n inp (ms, pk) = (ms @ replicate n (Fin 0), pk @ replicate n (Fin 0))"
  using assms
proof (induction n arbitrary: inp ms pk)
  case 0
  then show ?case by simp
next
  case (Suc n)
  let ?b = "nat block_size"
  let ?inp' = "inp\<lparr>sf_data := drop ?b (sf_data inp)\<rparr>"
  have len: "0 < length (sf_data inp)" using Suc.prems(5) by (cases "sf_data inp") simp_all
  have b: "0 < ?b" using Suc.prems(2) by simp
  have blk: "mono_block d (take ?b (sf_data inp)) (min ?b (length (sf_data inp))) = (Fin 0, Fin 0)"
    using Suc.prems(3,4) len b by (intro mono_block_silent) (simp_all add: silent_take)
  have step: "mono_blocks d block_size (Suc n) inp (ms, pk) =
      mono_blocks d block_size n ?inp' (ms @ [Fin 0], pk @ [Fin 0])"
    by (simp add: readf_mono [OF Suc.prems(1,2)] blk)
  show ?case
  proof (cases n)
    case 0
    show ?thesis unfolding step by (simp add: 0)
  next
    case (Suc m)
    have "(n - 1) * ?b < length (sf_data ?inp')"
      using Suc.prems(5) Suc by (simp add: algebra_simps)
    then have "mono_blocks d block_size n ?inp' (ms @ [Fin 0], pk @ [Fin 0]) =
        ((ms @ [Fin 0]) @ replicate n (Fin 0), (pk @ [Fin 0]) @ replicate n (Fin 0))"
      using Suc.prems(1-4) by (intro Suc.IH) (simp_all add: silent_drop)
    then show ?thesis unfolding step by (simp add: replicate_app_Cons_same)
  qed
qed

section \<open>Selection on constant and one-element statistics\<close>

lemma nth_element_mset: "nth_element_spec sel \<Longrightarrow> mset (sel n xs) = mset xs"
  by (simp add: nth_element_spec_def nth_element_post_def)

lemma nth_element_length: "nth_element_spec sel \<Longrightarrow> length (sel n xs) = length xs"
  using nth_element_mset [of sel n xs] by (metis size_mset)

lemma nth_element_set: "nth_element_spec sel \<Longrightarrow> set (sel n xs) = set xs"
  using nth_element_mset [of sel n xs] by (metis set_mset_mset)

lemma nth_element_replicate:
  assumes "nth_element_spec sel"
  shows "sel n (replicate m a) = replicate m a"
proof -
  have "set (sel n (replicate m a)) \<subseteq> {a}"
    using nth_element_set [OF assms, of n "replicate m a"] by auto
  moreover have "length (sel n (replicate m a)) = m"
    using nth_element_length [OF assms, of n "replicate m a"] by simp
  ultimately show ?thesis by (intro replicate_eqI) auto
qed

lemma nth_element_single: "nth_element_spec sel \<Longrightarrow> sel n [a] = [a]"
  using nth_element_replicate [of sel n 1 a] by simp

lemma sum_first_foldl:
  assumes "n \<le> length v"
  shows "sum_first v i n acc = foldl fadd acc (take (n - i) (drop i v))"
  using assms
proof (induction v i n acc rule: sum_first.induct)
  case (1 v i n acc)
  show ?case
  proof (cases "i < n")
    case True
    then have "i < length v" using "1.prems" by simp
    then have "take (n - i) (drop i v) = v ! i # take (n - Suc i) (drop (Suc i) v)"
      using True by (simp add: Cons_nth_drop_Suc [symmetric] Suc_diff_Suc [symmetric] del: Suc_diff_Suc)
    then show ?thesis using True "1.IH" "1.prems" by (subst sum_first.simps) simp
  next
    case False
    then show ?thesis by (subst sum_first.simps) simp
  qed
qed

lemma foldl_fadd_zeros: "foldl fadd (Fin 0) (replicate n (Fin 0)) = Fin 0"
  by (induction n) simp_all

lemma rnd_2: "rnd 2 = 2"
  by code_simp

lemma fdiv_two_nonneg:
  assumes "0 < n"
  shows "\<exists>w. fdiv (Fin 2) (f32_of_nat n) = Fin w \<and> 0 \<le> w"
proof -
  consider "f32_of_nat n = PInf" | v where "f32_of_nat n = Fin v" "1 \<le> v"
    using f32_of_nat_pos [OF assms] by blast
  then show ?thesis
  proof cases
    case 1
    then show ?thesis by (simp add: fdiv_def signed_zero_def)
  next
    case 2
    have "2 / v \<le> 2" using 2(2) by (simp add: field_simps)
    then have "rnd (2 / v) \<le> 2" using rnd_mono [of "2 / v" 2] by (simp add: rnd_2)
    moreover have "0 \<le> rnd (2 / v)" using 2(2) by (intro rnd_nonneg) simp
    ultimately have "round32 (2 / v) = Fin (rnd (2 / v))"
      using 2(2) by (intro round32_Fin) auto
    then show ?thesis using 2 \<open>0 \<le> rnd (2 / v)\<close> by (simp add: fdiv_def)
  qed
qed

lemma fmul_zero_nonneg: "0 \<le> w \<Longrightarrow> fmul (Fin 0) (Fin w) = Fin 0"
  by (simp add: fmul_def signed_zero_def)

lemma top_average_silent:
  assumes "nth_element_spec (nth_element P)" "0 < k" "k \<le> n"
  shows "top_average P k (replicate n (Fin 0)) = Fin 0"
proof -
  note v = nth_element_replicate [OF assms(1)]
  have "sum_first (replicate n (Fin 0)) 0 k (Fin 0) = Fin 0"
    using assms(3) by (simp add: sum_first_foldl foldl_fadd_zeros min_def)
  moreover obtain w where "fdiv (Fin 2) (f32_of_nat k) = Fin w" "0 \<le> w"
    using fdiv_two_nonneg [OF assms(2)] by blast
  ultimately show ?thesis by (simp add: top_average_def v fmul_zero_nonneg)
qed

lemma peak_index_bound: "0 < length v \<Longrightarrow> min 1 (to_size_t (int (length v) - 1)) < length v"
proof -
  assume h: "0 < length v"
  have "(int (length v) - 1) mod 2 ^ 64 \<le> int (length v) - 1"
    using h by (intro zmod_le_nonneg_dividend) simp
  then have "to_size_t (int (length v) - 1) \<le> length v - 1"
    by (simp add: to_size_t_def)
  moreover have "min 1 (to_size_t (int (length v) - 1)) \<le> to_size_t (int (length v) - 1)"
    by simp
  ultimately show ?thesis using h by linarith
qed

lemma representative_peak_silent:
  assumes "nth_element_spec (nth_element P)" "0 < n"
  shows "representative_peak P (replicate n (Fin 0)) = Fin 0"
proof -
  note v = nth_element_replicate [OF assms(1)]
  have "min 1 (to_size_t (int (length (replicate n (Fin 0 :: f32))) - 1)) < length (replicate n (Fin 0 :: f32))"
    using assms(2) by (intro peak_index_bound) simp
  then show ?thesis by (simp add: representative_peak_def v)
qed

lemma f32_of_int_consts: "f32_of_int 10 = Fin 10" "f32_of_int 2 = Fin 2"
  by code_simp+

lemma channel_dr_silent:
  assumes "log10 P NaN = NaN"
  shows "channel_dr P (Fin 0) (Fin 0) = NaN"
  by (simp add: channel_dr_def assms)

lemma channel_dr_NaN:
  assumes "log10 P NaN = NaN"
  shows "channel_dr P peak NaN = NaN"
  by (simp add: channel_dr_def assms)

lemma mono_dr_silent:
  assumes "nth_element_spec (nth_element P)" "log10 P NaN = NaN" "0 < k" "k \<le> n"
  shows "mono_dr P k (replicate n (Fin 0)) (replicate n (Fin 0)) = NaN"
  using assms
  by (simp add: mono_dr_def top_average_silent representative_peak_silent channel_dr_silent)

lemma top_average_single_NaN:
  assumes "nth_element_spec (nth_element P)"
  shows "top_average P 1 [NaN] = NaN"
proof -
  have "sum_first [NaN] 0 1 (Fin 0) = NaN" by (simp add: sum_first_foldl)
  then show ?thesis by (simp add: top_average_def nth_element_single [OF assms])
qed

lemma representative_peak_single:
  assumes "nth_element_spec (nth_element P)"
  shows "representative_peak P [a] = a"
  by (simp add: representative_peak_def nth_element_single [OF assms] to_size_t_def)

section \<open>The reference platform meets the library contracts\<close>

lemma sort_desc_sorted: "sorted_wrt (\<lambda>a b. ext b \<le> ext a) (sort_desc n xs)"
proof -
  have "sorted (map ext (sort_key ext xs))" by (rule sorted_sort_key)
  then have "sorted_wrt (\<lambda>a b. ext a \<le> ext b) (sort_key ext xs)" by (simp add: sorted_map)
  then show ?thesis by (simp add: sort_desc_def sorted_wrt_rev)
qed

lemma sort_desc_spec: "nth_element_spec sort_desc"
  unfolding nth_element_spec_def nth_element_post_def
proof (intro allI conjI impI)
  fix n xs
  show "mset (sort_desc n xs) = mset xs" by (simp add: sort_desc_def)
next
  fix n xs
  let ?ys = "sort_desc n xs"
  assume n: "n < length ?ys"
  have s: "i < j \<Longrightarrow> j < length ?ys \<Longrightarrow> ext (?ys ! j) \<le> ext (?ys ! i)" for i j
    using sort_desc_sorted [of n xs] by (simp add: sorted_wrt_iff_nth_less)
  show "list_all (\<lambda>y. \<not> fgt (?ys ! n) y) (take n ?ys)"
    unfolding list_all_length
  proof (intro allI impI)
    fix i assume "i < length (take n ?ys)"
    then have "i < n" by simp
    then have "ext (?ys ! n) \<le> ext (?ys ! i)" using s n by simp
    then show "\<not> fgt (?ys ! n) (take n ?ys ! i)" using \<open>i < n\<close> by (simp add: fgt_def not_less)
  qed
  show "list_all (\<lambda>y. \<not> fgt y (?ys ! n)) (drop (Suc n) ?ys)"
    unfolding list_all_length
  proof (intro allI impI)
    fix i assume i: "i < length (drop (Suc n) ?ys)"
    then have "ext (?ys ! (Suc n + i)) \<le> ext (?ys ! n)" using s [of n "Suc n + i"] by simp
    then show "\<not> fgt (drop (Suc n) ?ys ! i) (?ys ! n)" using i by (simp add: fgt_def not_less)
  qed
qed

lemma f32_pos_lower:
  assumes "rnd r = r" "0 < r"
  shows "2 powi (- 149) \<le> r"
proof -
  have "repr r" using assms(1) rnd_repr [of r] by simp
  then obtain m e where r: "r = of_int m * 2 powi e" and e: "- 149 \<le> e"
    by (auto simp: repr_def)
  have "0 < real_of_int m * 2 powi e" using assms(2) r by simp
  then have "0 < real_of_int m" by (rule zero_less_mult_pos2) simp
  then have "1 \<le> real_of_int m" by simp
  then have "1 * (2::real) powi e \<le> of_int m * 2 powi e" by (intro mult_right_mono) simp_all
  moreover have "(2::real) powi (- 149) \<le> 2 powi e" using e by (simp only: p2_le_iff)
  ultimately show ?thesis unfolding r by linarith
qed

lemma log10_f32_bound:
  assumes "is_f32 (Fin r)" "0 < r"
  shows "\<bar>log 10 r\<bar> < 64"
proof -
  have v: "rnd r = r" "r < 2 ^ 128" using assms by (simp_all add: is_f32_def)
  define c :: real where "c = 10 ^ 64"
  have c: "0 < c" "2 ^ 128 < c" "1 / c < 2 powi (- 149)"
    by (simp_all add: c_def power_int_minus_divide)
  have lc: "log 10 c = 64"
    unfolding c_def using log_pow_cancel [of 10 64] by simp
  have "log 10 r < log 10 c" using assms(2) v(2) c by (subst log_less_cancel_iff) simp_all
  then have up: "log 10 r < 64" by (simp add: lc)
  have "1 / c < r" using f32_pos_lower [OF v(1) assms(2)] c(3) by linarith
  then have "log 10 (1 / c) < log 10 r" using assms(2) c(1) by (subst log_less_cancel_iff) simp_all
  moreover have "log 10 (1 / c) = - 64" using c(1) by (simp add: log_divide lc)
  ultimately have "- 64 < log 10 r" by simp
  with up show ?thesis by simp
qed

lemma fexp_small:
  assumes "\<bar>x\<bar> < 64"
  shows "fexp x \<le> - 18"
proof (cases "x = 0")
  case True
  then show ?thesis by (simp add: fexp_def flog2_def bitlen_def)
next
  case False
  have "(2::real) powi flog2 \<bar>x\<bar> \<le> \<bar>x\<bar>" using False by (intro flog2_bounds) simp
  also have "\<bar>x\<bar> < 2 powi 6" using assms by simp
  finally have "(2::real) powi flog2 \<bar>x\<bar> < 2 powi 6" .
  then have "flog2 \<bar>x\<bar> < 6" by (simp only: p2_less_iff)
  then show ?thesis by (simp add: fexp_def)
qed

lemma log10_ref_spec: "log10_spec log10_ref"
  unfolding log10_spec_def
proof (intro conjI allI impI)
  fix r :: real
  assume r: "0 < r" "is_f32 (Fin r)"
  let ?L = "log 10 r"
  have b: "\<bar>?L\<bar> < 64" using r by (intro log10_f32_bound)
  have "\<bar>rnd ?L - ?L\<bar> \<le> 2 powi fexp ?L / 2" by (rule rnd_error)
  also have "\<dots> \<le> 2 powi (- 18) / 2"
  proof -
    have "(2::real) powi fexp ?L \<le> 2 powi (- 18)" using fexp_small [OF b] by (simp only: p2_le_iff)
    then show ?thesis by (rule divide_right_mono) simp
  qed
  also have "\<dots> \<le> 1 / 2 ^ 16" by (simp add: power_int_minus_divide)
  finally have "\<bar>rnd ?L - ?L\<bar> \<le> 1 / 2 ^ 16" .
  then show "\<exists>y. log10_ref (Fin r) = Fin y \<and> \<bar>y - ?L\<bar> \<le> 1 / 2 ^ 16"
    using r(1) by (simp add: log10_ref_def)
qed (simp_all add: log10_ref_def)

lemma ref_platform_ok:
  "nth_element_spec (nth_element ref_platform)" "log10_spec (log10 ref_platform)"
  "0 < Lanes (hwy ref_platform)"
  by (simp_all add: ref_platform_def sort_desc_spec log10_ref_spec)

section \<open>Blocks and the length of the stream\<close>

lemma log10_spec_NaN: "log10_spec lg \<Longrightarrow> lg NaN = NaN"
  by (simp add: log10_spec_def)

lemma num_blocks_of_no_frames:
  assumes "0 < block_size" "block_size < 2 ^ 63"
  shows "num_blocks_of 0 block_size = Inr 1"
proof -
  have "(block_size - 1) div block_size = 0"
    using assms(1) by (simp add: div_pos_pos_trivial)
  then show ?thesis using num_blocks_of_Inr [of 0 block_size] assms by simp
qed

lemma blocks_cover:
  assumes "0 < B" "1 \<le> F" "F + B < 2 ^ 63" "num_blocks_of F B = Inr n"
  shows "(n - 1) * nat B < nat F"
proof -
  have nb: "int n = max 1 \<lceil>real_of_int F / real_of_int B\<rceil>"
    using num_blocks_of_ceiling [of F B] assms by auto
  define q where "q = (F + B - 1) div B"
  have c: "\<lceil>real_of_int F / real_of_int B\<rceil> = q"
    using assms(1) by (simp add: ceiling_div_int q_def)
  have "B * q + (F + B - 1) mod B = F + B - 1" by (simp add: q_def)
  moreover have "0 \<le> (F + B - 1) mod B" using assms(1) by simp
  ultimately have "B * q \<le> F + B - 1" by linarith
  then have "q * B \<le> F + B - 1" by (simp add: mult.commute)
  then have 1: "(q - 1) * B < F" by (simp add: algebra_simps)
  have "0 < q" unfolding q_def using assms(1,2) by (subst pos_imp_zdiv_pos_iff) auto
  then have "1 \<le> q" by simp
  then have "int n = q" using nb c by simp
  then have "int ((n - 1) * nat B) = (q - 1) * B"
    using \<open>1 \<le> q\<close> assms(1) by (simp add: of_nat_diff)
  then have "int ((n - 1) * nat B) < int (nat F)" using 1 assms(2) by simp
  then show ?thesis by linarith
qed

lemma max_size_val: "int max_size = 2305843009213693951"
  by (simp add: max_size_def)

lemma num_blocks_reserved:
  assumes "0 \<le> F" "F \<le> 2 ^ 62" "3 \<le> B" "B \<le> 2144914432" "num_blocks_of F B = Inr n"
  shows "\<not> max_size < n"
proof -
  have "(2::int) ^ 62 + 2144914432 < 2 ^ 63" by simp
  then have lt: "F + B < 2 ^ 63" using assms(2,4) by linarith
  have n: "n = max 1 (nat ((F + B - 1) div B))"
    using num_blocks_of_Inr [of F B] assms lt by simp
  have "(F + B - 1) div B \<le> (F + B - 1) div 3"
    using zdiv_mono2 [of "F + B - 1" 3 B] assms by simp
  also have "\<dots> \<le> (2 ^ 62 + 2144914431) div 3"
    using assms(2,4) by (intro zdiv_mono1) auto
  also have "\<dots> \<le> 2305843009213693951" by simp
  finally have "int n \<le> 2305843009213693951" unfolding n by simp
  then show ?thesis using max_size_val by linarith
qed

section \<open>A stream without frames\<close>

lemma mono_blocks_empty:
  assumes "sf_channels inp = 1" "0 < block_size" "0 < Lanes d" "sf_data inp = []"
  shows "mono_blocks d block_size 1 inp ([], []) = ([NaN], [Fin 0])"
proof -
  have "mono_blocks d block_size (Suc 0) inp ([], []) = ([NaN], [Fin 0])"
    by (simp add: readf_mono [OF assms(1,2)] assms(4) mono_block_empty [OF assms(3)])
  then show ?thesis by simp
qed

lemma mono_dr_single_NaN:
  assumes "nth_element_spec (nth_element P)" "log10_spec (log10 P)"
  shows "mono_dr P 1 [NaN] [Fin 0] = NaN"
  unfolding mono_dr_def Let_def top_average_single_NaN [OF assms(1)]
  by (rule channel_dr_NaN [OF log10_spec_NaN [OF assms(2)]])

lemma mono_stats_no_frames:
  assumes "sf_channels inp = 1" "sf_frames inp = 0" "sf_data inp = []"
    and "1 \<le> sf_samplerate inp" "sf_samplerate inp \<le> 714000000"
    and "0 < Lanes (hwy P)"
  shows "mono_stats_of P inp = Inr (1, [NaN], [Fin 0])"
proof -
  have bs: "3 \<le> GetBlockSize inp" "GetBlockSize inp \<le> 2144914432"
    using GetBlockSize_range [OF assms(4,5)] by auto
  have nb: "num_blocks_of (sf_frames inp) (GetBlockSize inp) = Inr 1"
    unfolding assms(2) using bs by (intro num_blocks_of_no_frames) auto
  have blocks: "mono_blocks (hwy P) (GetBlockSize inp) 1 inp ([], []) = ([NaN], [Fin 0])"
    using assms(1,3,6) bs(1) by (intro mono_blocks_empty) auto
  have k: "num_top_blocks_of 1 = 1" by (simp add: num_top_blocks_of_def)
  have m: "\<not> max_size < 1" by (simp add: max_size_def)
  show ?thesis
    unfolding mono_stats_of_def Let_def nb sum.case blocks k using m by simp
qed

lemma ComputeMonoDR_no_frames:
  assumes "sf_channels inp = 1" "sf_frames inp = 0" "sf_data inp = []"
    and "1 \<le> sf_samplerate inp" "sf_samplerate inp \<le> 714000000"
    and "0 < Lanes (hwy P)" "nth_element_spec (nth_element P)" "log10_spec (log10 P)"
  shows "ComputeMonoDR P inp = Inr NaN"
  unfolding ComputeMonoDR_def mono_stats_no_frames [OF assms(1-6)] sum.case prod.case
    mono_dr_single_NaN [OF assms(7,8)]
  by (rule refl)

lemma ComputeRating_mono:
  assumes "sf_channels inp = 1" "ComputeMonoDR P inp = Inr dr"
  shows "ComputeRating P inp = Inr \<lparr>rating = kMonoRating dr, final_rating = fround dr\<rparr>"
  using assms by (simp add: ComputeRating_def)

lemma main_single:
  assumes "sf_channels inp \<le> 2" "ComputeRating P inp = Inr r"
  shows "main P [(filename, Some inp)]
    = EXIT_SUCCESS [(filename, rating r, show_rating (final_rating r))] None"
  using assms by (simp add: main_def)

lemma main_single_fault:
  assumes "sf_channels inp \<le> 2" "ComputeRating P inp = Inl f"
  shows "main P [(filename, Some inp)] = KILLED"
  using assms by (simp add: main_def)

lemma GetBlockSize_zero:
  "sf_samplerate inp = 1429710528 \<Longrightarrow> GetBlockSize inp = 0"
  by (simp add: GetBlockSize_def block_float_zero round_away_def wrap_signed_def)

text \<open>
  C10, as stated, for every stream without frames: it fails at the positive sample rate
  1429710528.  The single-precision block size is \<open>2 ^ 32\<close> there, which is 0 as an
  \<open>int\<close>; the quotient of line 43 divides by it, and the process is ended before the
  loop over the blocks is reached.
\<close>

theorem no_frames_counterexample:
  "0 < sf_samplerate zero_block_stream \<and> sf_channels zero_block_stream = 1 \<and>
   sf_frames zero_block_stream = 0 \<and> sf_data zero_block_stream = [] \<and>
   GetBlockSize zero_block_stream = 0 \<and>
   num_blocks_of (sf_frames zero_block_stream) (GetBlockSize zero_block_stream) = Inl DivisionByZero \<and>
   ComputeMonoDR ref_platform zero_block_stream = Inl DivisionByZero \<and>
   ComputeRating ref_platform zero_block_stream = Inl DivisionByZero \<and>
   main ref_platform [(''empty.wav'', Some zero_block_stream)] = KILLED"
proof -
  have h: "sf_samplerate zero_block_stream = 1429710528" "sf_channels zero_block_stream = 1"
    "sf_frames zero_block_stream = 0" "sf_data zero_block_stream = []"
    by (simp_all add: zero_block_stream_def)
  have bs: "GetBlockSize zero_block_stream = 0" using h(1) by (rule GetBlockSize_zero)
  have nb: "num_blocks_of (sf_frames zero_block_stream) (GetBlockSize zero_block_stream)
      = Inl DivisionByZero"
    by (simp add: bs h(3) num_blocks_of_def in_range_def)
  have dr: "ComputeMonoDR ref_platform zero_block_stream = Inl DivisionByZero"
    by (simp add: ComputeMonoDR_def mono_stats_of_def Let_def nb)
  have r: "ComputeRating ref_platform zero_block_stream = Inl DivisionByZero"
    by (simp add: ComputeRating_def h(2) dr)
  have "main ref_platform [(''empty.wav'', Some zero_block_stream)] = KILLED"
    using r by (intro main_single_fault) (simp add: h(2))
  then show ?thesis using h bs nb dr r by simp
qed

text \<open>
  C10, amended: a mono stream without frames (and so without samples), at a sample rate
  from 1 to 714000000 (where the block size fits an \<open>int\<close>).  There is one block, its
  read returns 0 frames, its mean square is \<open>0 / 0\<close>, a NaN, and its peak is 0; the
  one-element vectors keep the loop over the top blocks (\<open>num_top_blocks = 1\<close>) and the
  index \<open>min (1, size - 1) = 0\<close> of the peak in bounds; \<open>ComputeMonoDR\<close> returns a NaN
  without a fault, so does the rounded final rating, and \<open>main\<close> shows it as \<open>N/A\<close>.
\<close>

theorem no_frames_NaN:
  assumes "sf_channels inp = 1" "sf_frames inp = 0" "sf_data inp = []"
    and "1 \<le> sf_samplerate inp" "sf_samplerate inp \<le> 714000000"
    and "0 < Lanes (hwy P)" "nth_element_spec (nth_element P)" "log10_spec (log10 P)"
  shows "num_blocks_of (sf_frames inp) (GetBlockSize inp) = Inr 1 \<and>
    snd (fst (readf inp (GetBlockSize inp))) = 0 \<and>
    mono_blocks (hwy P) (GetBlockSize inp) 1 inp ([], []) = ([NaN], [Fin 0]) \<and>
    mono_stats_of P inp = Inr (1, [NaN], [Fin 0]) \<and>
    num_top_blocks_of 1 \<le> length [NaN] \<and>
    min 1 (to_size_t (int (length (nth_element P 1 [Fin 0])) - 1)) < length (nth_element P 1 [Fin 0]) \<and>
    ComputeMonoDR P inp = Inr NaN \<and>
    ComputeRating P inp = Inr \<lparr>rating = kMonoRating NaN, final_rating = NaN\<rparr> \<and>
    show_rating NaN = NA \<and>
    main P [(filename, Some inp)] = EXIT_SUCCESS [(filename, kMonoRating NaN, NA)] None"
proof -
  have bs: "3 \<le> GetBlockSize inp" "GetBlockSize inp \<le> 2144914432"
    using GetBlockSize_range [OF assms(4,5)] by auto
  have nb: "num_blocks_of (sf_frames inp) (GetBlockSize inp) = Inr 1"
    unfolding assms(2) using bs by (intro num_blocks_of_no_frames) auto
  have rd: "snd (fst (readf inp (GetBlockSize inp))) = 0"
    using bs(1) by (simp add: readf_def assms(1,3))
  have blocks: "mono_blocks (hwy P) (GetBlockSize inp) 1 inp ([], []) = ([NaN], [Fin 0])"
    using assms(1,3,6) bs(1) by (intro mono_blocks_empty) auto
  have st: "mono_stats_of P inp = Inr (1, [NaN], [Fin 0])"
    using assms(1-6) by (rule mono_stats_no_frames)
  have k: "num_top_blocks_of 1 \<le> length [NaN :: f32]" by (simp add: num_top_blocks_of_def)
  have idx: "min 1 (to_size_t (int (length (nth_element P 1 [Fin 0])) - 1)) < length (nth_element P 1 [Fin 0])"
    by (simp add: nth_element_single [OF assms(7)] to_size_t_def)
  have dr: "ComputeMonoDR P inp = Inr NaN" using assms by (rule ComputeMonoDR_no_frames)
  have r: "ComputeRating P inp = Inr \<lparr>rating = kMonoRating NaN, final_rating = NaN\<rparr>"
    using ComputeRating_mono [OF assms(1) dr] by simp
  have sh: "show_rating NaN = NA" by (simp add: show_rating_def isfinite_def)
  have "main P [(filename, Some inp)] = EXIT_SUCCESS [(filename, kMonoRating NaN, NA)] None"
    using main_single [OF _ r, of filename] assms(1) sh by simp
  then show ?thesis using nb rd blocks st k idx dr r sh by blast
qed

lemma empty_stream_NaN:
  "ComputeRating ref_platform empty_stream = Inr \<lparr>rating = kMonoRating NaN, final_rating = NaN\<rparr>"
proof -
  have "ComputeMonoDR ref_platform empty_stream = Inr NaN"
    by (rule ComputeMonoDR_no_frames) (simp_all add: empty_stream_def ref_platform_ok)
  from ComputeRating_mono [OF _ this] show ?thesis by (simp add: empty_stream_def)
qed

theorem no_frames_NaN_witness:
  "sf_channels empty_stream = 1 \<and> sf_frames empty_stream = 0 \<and> sf_data empty_stream = [] \<and>
   1 \<le> sf_samplerate empty_stream \<and> sf_samplerate empty_stream \<le> 714000000 \<and>
   0 < Lanes (hwy ref_platform) \<and> nth_element_spec (nth_element ref_platform) \<and>
   log10_spec (log10 ref_platform) \<and>
   mono_stats_of ref_platform empty_stream = Inr (1, [NaN], [Fin 0]) \<and>
   ComputeMonoDR ref_platform empty_stream = Inr NaN \<and>
   ComputeRating ref_platform empty_stream = Inr \<lparr>rating = kMonoRating NaN, final_rating = NaN\<rparr> \<and>
   main ref_platform [(''empty.wav'', Some empty_stream)]
     = EXIT_SUCCESS [(''empty.wav'', kMonoRating NaN, NA)] None"
proof -
  have h: "sf_channels empty_stream = 1" "sf_frames empty_stream = 0" "sf_data empty_stream = []"
    "1 \<le> sf_samplerate empty_stream" "sf_samplerate empty_stream \<le> 714000000"
    by (simp_all add: empty_stream_def)
  from no_frames_NaN [OF h ref_platform_ok(3,1,2), of "''empty.wav''"] h ref_platform_ok
  show ?thesis by simp
qed

lemma cd_stream_rated: "\<exists>r. ComputeRating ref_platform cd_stream = Inr r"
proof -
  have nb: "num_blocks_of (sf_frames cd_stream) 132480 = Inr 8"
    by (simp add: cd_stream_def num_blocks_of_def in_range_def quot_def to_size_t_def)
  have m: "\<not> max_size < 8" by (simp add: max_size_def)
  have "\<exists>k stats. stereo_stats_of ref_platform cd_stream = Inr (k, stats)"
    unfolding stereo_stats_of_def Let_def GetBlockSize_cd nb sum.case
    using m by (simp add: in_range_def)
  then obtain k stats where "stereo_stats_of ref_platform cd_stream = Inr (k, stats)" by blast
  then show ?thesis
    by (simp add: ComputeRating_def ComputeStereoDR_def cd_stream_def split: prod.splits)
qed

theorem album_poisoned_witness:
  "open_tracks [(''a.wav'', Some cd_stream), (''b.wav'', Some empty_stream)] []
     = Inr [(''a.wav'', cd_stream), (''b.wav'', empty_stream)] \<and>
   1 < length [(''a.wav'', cd_stream), (''b.wav'', empty_stream)] \<and>
   (\<exists>r. rate_tracks ref_platform [(''a.wav'', cd_stream), (''b.wav'', empty_stream)]
      = Some [(''a.wav'', r), (''b.wav'', \<lparr>rating = kMonoRating NaN, final_rating = NaN\<rparr>)]) \<and>
   (''b.wav'', empty_stream) \<in> set [(''a.wav'', cd_stream), (''b.wav'', empty_stream)] \<and>
   ComputeRating ref_platform empty_stream = Inr \<lparr>rating = kMonoRating NaN, final_rating = NaN\<rparr> \<and>
   \<not> isfinite (final_rating \<lparr>rating = kMonoRating NaN, final_rating = NaN\<rparr>) \<and>
   (\<exists>reports. main ref_platform [(''a.wav'', Some cd_stream), (''b.wav'', Some empty_stream)]
      = EXIT_SUCCESS reports (Some NA))"
proof -
  obtain r where r: "ComputeRating ref_platform cd_stream = Inr r"
    using cd_stream_rated by blast
  have h: "open_tracks [(''a.wav'', Some cd_stream), (''b.wav'', Some empty_stream)] []
     = Inr [(''a.wav'', cd_stream), (''b.wav'', empty_stream)]"
    "1 < length [(''a.wav'', cd_stream), (''b.wav'', empty_stream)]"
    "rate_tracks ref_platform [(''a.wav'', cd_stream), (''b.wav'', empty_stream)]
      = Some [(''a.wav'', r), (''b.wav'', \<lparr>rating = kMonoRating NaN, final_rating = NaN\<rparr>)]"
    "(''b.wav'', empty_stream) \<in> set [(''a.wav'', cd_stream), (''b.wav'', empty_stream)]"
    "ComputeRating ref_platform empty_stream = Inr \<lparr>rating = kMonoRating NaN, final_rating = NaN\<rparr>"
    "\<not> isfinite (final_rating \<lparr>rating = kMonoRating NaN, final_rating = NaN\<rparr>)"
    by (simp_all add: r empty_stream_NaN isfinite_def) (simp_all add: cd_stream_def empty_stream_def)
  from album_poisoned [OF h] h show ?thesis by blast
qed

section \<open>Stereo blocks of silence\<close>

lemma length_evens_odds:
  "length (evens xs) = (length xs + 1) div 2" "length (odds xs) = length xs div 2"
  by (induction xs rule: evens_odds.induct) simp_all

lemma set_evens_odds: "set (evens xs) \<subseteq> set xs" "set (odds xs) \<subseteq> set xs"
  by (induction xs rule: evens_odds.induct) auto

lemma silent_evens: "silent xs \<Longrightarrow> silent (evens xs)"
  using set_evens_odds(1) [of xs] by (auto simp: silent_def)

lemma silent_odds: "silent xs \<Longrightarrow> silent (odds xs)"
  using set_evens_odds(2) [of xs] by (auto simp: silent_def)

lemma silent_append: "silent (xs @ ys) \<longleftrightarrow> silent xs \<and> silent ys"
  by (auto simp: silent_def)

lemma silent_Zero: "silent (hn_Zero d)"
  by (simp add: silent_def hn_Zero_def)

lemma stereo_step_zero:
  assumes "length left = Lanes d" "silent left" "length right = Lanes d" "silent right"
  shows "stereo_step d left right (hn_Zero d, hn_Zero d, hn_Zero d, hn_Zero d)
    = (hn_Zero d, hn_Zero d, hn_Zero d, hn_Zero d)"
  using assms by (simp add: stereo_step_def hn_MulAdd_zero hn_Max_Abs_zero silent_def)

lemma stereo_full_zero:
  assumes "0 < Lanes d" "2 * frames_read \<le> length buf" "silent buf" "i \<le> frames_read"
    and "acc = (hn_Zero d, hn_Zero d, hn_Zero d, hn_Zero d)"
  shows "snd (stereo_full d buf frames_read i acc) = acc \<and>
    i \<le> fst (stereo_full d buf frames_read i acc) \<and>
    fst (stereo_full d buf frames_read i acc) \<le> frames_read \<and>
    frames_read - fst (stereo_full d buf frames_read i acc) < Lanes d"
  using assms
proof (induction d buf frames_read i acc rule: stereo_full.induct)
  case (1 d buf frames_read i acc)
  show ?case
  proof (cases "i + Lanes d \<le> frames_read")
    case True
    let ?v = "take (2 * Lanes d) (drop (2 * i) buf)"
    have len: "length ?v = 2 * Lanes d" using True "1.prems"(2) by simp
    have sil: "silent ?v" using "1.prems"(3) by (simp add: silent_take silent_drop)
    have st: "stereo_step d (evens ?v) (odds ?v) acc = acc"
      unfolding "1.prems"(5) using len sil
      by (intro stereo_step_zero) (simp_all add: length_evens_odds silent_evens silent_odds)
    have IH: "snd (stereo_full d buf frames_read (i + Lanes d) acc) = acc \<and>
      i + Lanes d \<le> fst (stereo_full d buf frames_read (i + Lanes d) acc) \<and>
      fst (stereo_full d buf frames_read (i + Lanes d) acc) \<le> frames_read \<and>
      frames_read - fst (stereo_full d buf frames_read (i + Lanes d) acc) < Lanes d"
      using "1.IH" [of "evens ?v" "odds ?v"] True "1.prems" st
      by (simp add: LoadInterleaved2_def)
    have "stereo_full d buf frames_read i acc = stereo_full d buf frames_read (i + Lanes d) acc"
      using True "1.prems"(1) st by (subst stereo_full.simps) (simp add: LoadInterleaved2_def)
    then show ?thesis using IH by simp
  next
    case False
    then have "stereo_full d buf frames_read i acc = (i, acc)"
      by (subst stereo_full.simps) simp
    then show ?thesis using False "1.prems" by simp
  qed
qed

lemma stereo_rest_zero:
  assumes "0 < Lanes d" "2 * frames_read \<le> length buf" "silent buf" "i \<le> frames_read"
    and "frames_read - i < Lanes d"
  shows "stereo_rest d buf frames_read i (hn_Zero d, hn_Zero d, hn_Zero d, hn_Zero d)
    = (hn_Zero d, hn_Zero d, hn_Zero d, hn_Zero d)"
proof (cases "i = frames_read")
  case True
  then show ?thesis by (simp add: stereo_rest_def)
next
  case False
  define remaining where "remaining = 2 * (frames_read - i)"
  define a where "a = LoadNOr (hn_Zero d) (drop (2 * i) buf) (min (Lanes d) remaining)"
  define b where "b = (if Lanes d < remaining
       then LoadNOr (hn_Zero d) (drop (2 * i + Lanes d) buf) (remaining - Lanes d)
       else hn_Zero d)"
  have rem: "remaining < 2 * Lanes d" "2 * i + remaining \<le> length buf"
    using assms(2,4,5) by (simp_all add: remaining_def)
  have "min (Lanes d) remaining \<le> length (drop (2 * i) buf)" using rem by simp
  then have "length (take (min (Lanes d) remaining) (drop (2 * i) buf)) = min (Lanes d) remaining"
    by (simp only: length_take min_absorb2)
  then have la: "length a = Lanes d"
    by (simp only: a_def LoadNOr_def length_append length_drop hn_Zero_def length_replicate)
  have lb: "length b = Lanes d"
  proof (cases "Lanes d < remaining")
    case True
    then have "remaining - Lanes d \<le> length (drop (2 * i + Lanes d) buf)" using rem by simp
    then have "length (take (remaining - Lanes d) (drop (2 * i + Lanes d) buf)) = remaining - Lanes d"
      by (simp only: length_take min_absorb2)
    moreover have "length (drop (remaining - Lanes d) (hn_Zero d)) = Lanes d - (remaining - Lanes d)"
      by (simp add: hn_Zero_def)
    ultimately have "length b = (remaining - Lanes d) + (Lanes d - (remaining - Lanes d))"
      using True by (simp only: b_def LoadNOr_def length_append if_True)
    then show ?thesis using True rem(1) by linarith
  next
    case False
    then show ?thesis by (simp add: b_def hn_Zero_def)
  qed
  have sa: "silent a" using assms(3) silent_Zero [of d]
    by (simp add: a_def LoadNOr_def silent_append silent_take silent_drop)
  have sb: "silent b" using assms(3) silent_Zero [of d]
    by (simp add: b_def LoadNOr_def silent_append silent_take silent_drop)
  have "stereo_step d (ConcatEven b a) (ConcatOdd b a) (hn_Zero d, hn_Zero d, hn_Zero d, hn_Zero d)
    = (hn_Zero d, hn_Zero d, hn_Zero d, hn_Zero d)"
    using la lb sa sb
    by (intro stereo_step_zero)
      (simp_all add: ConcatEven_def ConcatOdd_def length_evens_odds silent_evens silent_odds silent_append)
  then show ?thesis
    using False unfolding stereo_rest_def Let_def a_def b_def remaining_def by simp
qed

lemma stereo_block_silent:
  assumes "0 < Lanes d" "2 * frames_read \<le> length buf" "silent buf" "0 < frames_read"
  shows "stereo_block d buf frames_read = ((Fin 0, Fin 0), (Fin 0, Fin 0))"
proof -
  let ?Z = "(hn_Zero d, hn_Zero d, hn_Zero d, hn_Zero d)"
  obtain i acc where r: "stereo_full d buf frames_read 0 ?Z = (i, acc)"
    by (cases "stereo_full d buf frames_read 0 ?Z")
  have f: "acc = ?Z" "i \<le> frames_read" "frames_read - i < Lanes d"
    using stereo_full_zero [OF assms(1-3), of 0 ?Z] r by simp_all
  have "stereo_rest d buf frames_read i ?Z = ?Z"
    using assms(1-3) f(2,3) by (rule stereo_rest_zero)
  then show ?thesis using assms(4) by (simp add: stereo_block_def r f(1) fdiv_zero_pos)
qed

lemma readf_stereo:
  assumes "sf_channels inp = 2" "0 < block_size"
  shows "readf inp block_size =
    ((take (min (nat block_size) (length (sf_data inp) div 2) * 2) (sf_data inp),
      min (nat block_size) (length (sf_data inp) div 2)),
     inp\<lparr>sf_data := drop (min (nat block_size) (length (sf_data inp) div 2) * 2) (sf_data inp)\<rparr>)"
  using assms by (simp add: readf_def Let_def)

lemma stereo_blocks_silent:
  assumes "sf_channels inp = 2" "0 < block_size" "0 < Lanes d" "silent (sf_data inp)"
    and "(n - 1) * nat block_size < length (sf_data inp) div 2"
  shows "stereo_blocks d block_size n inp stats =
    \<lparr>left_block_mean_square = left_block_mean_square stats @ replicate n (Fin 0),
     left_block_peak = left_block_peak stats @ replicate n (Fin 0),
     right_block_mean_square = right_block_mean_square stats @ replicate n (Fin 0),
     right_block_peak = right_block_peak stats @ replicate n (Fin 0)\<rparr>"
  using assms
proof (induction n arbitrary: inp stats)
  case 0
  then show ?case by simp
next
  case (Suc n)
  let ?b = "nat block_size"
  let ?got = "min ?b (length (sf_data inp) div 2)"
  let ?inp' = "inp\<lparr>sf_data := drop (?got * 2) (sf_data inp)\<rparr>"
  let ?stats' = "\<lparr>left_block_mean_square = left_block_mean_square stats @ [Fin 0],
                  left_block_peak = left_block_peak stats @ [Fin 0],
                  right_block_mean_square = right_block_mean_square stats @ [Fin 0],
                  right_block_peak = right_block_peak stats @ [Fin 0]\<rparr>"
  have len: "0 < length (sf_data inp) div 2" using Suc.prems(5) by linarith
  have b: "0 < ?b" using Suc.prems(2) by simp
  have got: "0 < ?got" using len b by simp
  have "2 * ?got \<le> length (take (?got * 2) (sf_data inp))" by simp
  then have blk: "stereo_block d (take (?got * 2) (sf_data inp)) ?got = ((Fin 0, Fin 0), (Fin 0, Fin 0))"
    using Suc.prems(3,4) got by (intro stereo_block_silent) (simp_all add: silent_take)
  have step: "stereo_blocks d block_size (Suc n) inp stats = stereo_blocks d block_size n ?inp' ?stats'"
    by (simp add: readf_stereo [OF Suc.prems(1,2)] blk)
  show ?case
  proof (cases n)
    case 0
    show ?thesis unfolding step by (simp add: 0)
  next
    case (Suc m)
    have "n * ?b < length (sf_data inp) div 2" using Suc.prems(5) by simp
    moreover have "?b \<le> n * ?b" using Suc by simp
    ultimately have "?b < length (sf_data inp) div 2" by linarith
    then have g: "?got = ?b" by simp
    have "(n - 1) * ?b + ?b = n * ?b" using Suc by (simp add: algebra_simps)
    then have "(n - 1) * ?b + ?b < length (sf_data inp) div 2"
      using \<open>n * ?b < length (sf_data inp) div 2\<close> by simp
    then have "(n - 1) * ?b < length (sf_data ?inp') div 2"
      unfolding g by simp
    then have "stereo_blocks d block_size n ?inp' ?stats' =
      \<lparr>left_block_mean_square = left_block_mean_square ?stats' @ replicate n (Fin 0),
       left_block_peak = left_block_peak ?stats' @ replicate n (Fin 0),
       right_block_mean_square = right_block_mean_square ?stats' @ replicate n (Fin 0),
       right_block_peak = right_block_peak ?stats' @ replicate n (Fin 0)\<rparr>"
      using Suc.prems(1-4) by (intro Suc.IH) (simp_all add: silent_drop g)
    then show ?thesis unfolding step by (simp add: replicate_app_Cons_same)
  qed
qed

section \<open>Silence\<close>

lemma mono_stats_silent:
  assumes "stream_ok inp" "sf_channels inp = 1" "silent (sf_data inp)"
    and "1 \<le> sf_frames inp" "sf_frames inp \<le> 2 ^ 62"
    and "1 \<le> sf_samplerate inp" "sf_samplerate inp \<le> 714000000"
    and "0 < Lanes (hwy P)"
  shows "\<exists>nb. 1 \<le> nb \<and>
    mono_stats_of P inp = Inr (num_top_blocks_of nb, replicate nb (Fin 0), replicate nb (Fin 0))"
proof -
  have bs: "3 \<le> GetBlockSize inp" "GetBlockSize inp \<le> 2144914432"
    using GetBlockSize_range [OF assms(6,7)] by auto
  have "(2::int) ^ 62 + 2144914432 < 2 ^ 63" by simp
  then have fit: "sf_frames inp + GetBlockSize inp < 2 ^ 63" using assms(5) bs(2) by linarith
  obtain nb where nb: "num_blocks_of (sf_frames inp) (GetBlockSize inp) = Inr nb" "1 \<le> nb"
    using num_blocks_of_ceiling [of "sf_frames inp" "GetBlockSize inp"] assms(4) bs(1) fit by auto
  have m: "\<not> max_size < nb"
    using assms(4,5) bs nb(1) by (intro num_blocks_reserved [of "sf_frames inp" "GetBlockSize inp"]) auto
  have fr: "nat (sf_frames inp) = length (sf_data inp)"
    using assms(1,2) by (simp add: stream_ok_def)
  have "(nb - 1) * nat (GetBlockSize inp) < length (sf_data inp)"
    using blocks_cover [OF _ assms(4) fit nb(1)] bs(1) fr by simp
  then have "mono_blocks (hwy P) (GetBlockSize inp) nb inp ([], [])
      = ([] @ replicate nb (Fin 0), [] @ replicate nb (Fin 0))"
    using assms(2,3,8) bs(1) by (intro mono_blocks_silent) auto
  then have "mono_stats_of P inp = Inr (num_top_blocks_of nb, replicate nb (Fin 0), replicate nb (Fin 0))"
    using m by (simp add: mono_stats_of_def Let_def nb(1))
  then show ?thesis using nb(2) by blast
qed

lemma stereo_stats_silent:
  assumes "stream_ok inp" "sf_channels inp = 2" "silent (sf_data inp)"
    and "1 \<le> sf_frames inp" "sf_frames inp \<le> 2 ^ 62"
    and "1 \<le> sf_samplerate inp" "sf_samplerate inp \<le> 357000000"
    and "0 < Lanes (hwy P)"
  shows "\<exists>nb. 1 \<le> nb \<and>
    stereo_stats_of P inp = Inr (num_top_blocks_of nb,
      \<lparr>left_block_mean_square = replicate nb (Fin 0), left_block_peak = replicate nb (Fin 0),
       right_block_mean_square = replicate nb (Fin 0), right_block_peak = replicate nb (Fin 0)\<rparr>)"
proof -
  have bs: "3 \<le> GetBlockSize inp" "GetBlockSize inp \<le> 1072457216"
    using GetBlockSize_range_stereo [OF assms(6,7)] by auto
  have "(2::int) ^ 62 + 1072457216 < 2 ^ 63" by simp
  then have fit: "sf_frames inp + GetBlockSize inp < 2 ^ 63" using assms(5) bs(2) by linarith
  obtain nb where nb: "num_blocks_of (sf_frames inp) (GetBlockSize inp) = Inr nb" "1 \<le> nb"
    using num_blocks_of_ceiling [of "sf_frames inp" "GetBlockSize inp"] assms(4) bs(1) fit by auto
  have m: "\<not> max_size < nb"
    using assms(4,5) bs nb(1) by (intro num_blocks_reserved [of "sf_frames inp" "GetBlockSize inp"]) auto
  have r: "in_range 32 (2 * GetBlockSize inp)"
    using bs by (simp add: in_range_def)
  have fr: "nat (sf_frames inp) = length (sf_data inp) div 2"
    using assms(1,2) by (simp add: stream_ok_def)
  have "(nb - 1) * nat (GetBlockSize inp) < length (sf_data inp) div 2"
    using blocks_cover [OF _ assms(4) fit nb(1)] bs(1) fr by simp
  then have "stereo_blocks (hwy P) (GetBlockSize inp) nb inp
      \<lparr>left_block_mean_square = [], left_block_peak = [],
       right_block_mean_square = [], right_block_peak = []\<rparr> =
    \<lparr>left_block_mean_square = replicate nb (Fin 0), left_block_peak = replicate nb (Fin 0),
     right_block_mean_square = replicate nb (Fin 0), right_block_peak = replicate nb (Fin 0)\<rparr>"
    using assms(2,3,8) bs(1) by (subst stereo_blocks_silent) auto
  then have "stereo_stats_of P inp = Inr (num_top_blocks_of nb,
      \<lparr>left_block_mean_square = replicate nb (Fin 0), left_block_peak = replicate nb (Fin 0),
       right_block_mean_square = replicate nb (Fin 0), right_block_peak = replicate nb (Fin 0)\<rparr>)"
    using m r by (simp add: stereo_stats_of_def Let_def nb(1))
  then show ?thesis using nb(2) by blast
qed

lemma stereo_final_NaN: "fround (fdiv (fadd NaN NaN) (f32_of_int 2)) = NaN"
  by simp

lemma show_rating_NaN: "show_rating NaN = NA"
  by (simp add: show_rating_def isfinite_def)

lemma GetBlockSize_1GHz:
  "sf_samplerate inp = 1000000000 \<Longrightarrow> GetBlockSize inp = - 1290885632"
  by (simp add: GetBlockSize_def block_float_1GHz round_away_def wrap_signed_def)

lemma GetBlockSize_400MHz:
  "sf_samplerate inp = 400000000 \<Longrightarrow> GetBlockSize inp = 1201632640"
  by (simp add: GetBlockSize_def block_float_400MHz round_away_def wrap_signed_def)

lemma silent_gigahertz_stats:
  "mono_stats_of ref_platform silent_gigahertz = Inr (1, [NaN], [Fin 0])"
proof -
  have bs: "GetBlockSize silent_gigahertz = - 1290885632"
    by (rule GetBlockSize_1GHz) (simp add: silent_gigahertz_def)
  have nb: "num_blocks_of (sf_frames silent_gigahertz) (- 1290885632) = Inr 1"
    by (simp add: silent_gigahertz_def num_blocks_of_def in_range_def quot_def to_size_t_def)
  have rd: "readf silent_gigahertz (- 1290885632) = (([], 0), silent_gigahertz)"
    by (simp add: readf_def silent_gigahertz_def)
  have "mono_blocks (hwy ref_platform) (- 1290885632) (Suc 0) silent_gigahertz ([], [])
      = ([NaN], [Fin 0])"
    by (simp add: rd mono_block_empty [OF ref_platform_ok(3)])
  then have blocks: "mono_blocks (hwy ref_platform) (- 1290885632) 1 silent_gigahertz ([], [])
      = ([NaN], [Fin 0])"
    by simp
  have k: "num_top_blocks_of 1 = 1" by (simp add: num_top_blocks_of_def)
  have m: "\<not> max_size < 1" by (simp add: max_size_def)
  show ?thesis
    unfolding mono_stats_of_def Let_def bs nb sum.case blocks k using m by simp
qed

text \<open>
  C6, as stated, for every all-silence input: it fails outside the sample rates whose
  block size fits an \<open>int\<close>.  Three frames of silence at 1 GHz, mono: the block size is
  negative, the one block reads nothing, its mean square is \<open>0 / 0\<close>, and
  \<open>average_mean_square\<close> is a NaN where the claim has 0.  The same frames at a sample rate
  of 1429710528: the block size is 0, and line 43 divides by it.  Three stereo frames
  of silence at 400 MHz: the block size is 1201632640, and the size \<open>2 * block_size\<close> of
  the buffer of line 85 overflows the \<open>int\<close> it is computed in.
\<close>

theorem silence_counterexample:
  "stream_ok silent_gigahertz \<and> silent (sf_data silent_gigahertz) \<and>
   0 < sf_samplerate silent_gigahertz \<and> 0 < sf_frames silent_gigahertz \<and>
   mono_stats_of ref_platform silent_gigahertz = Inr (1, [NaN], [Fin 0]) \<and>
   top_average ref_platform 1 [NaN] = NaN \<and>
   stream_ok silent_zero_block \<and> silent (sf_data silent_zero_block) \<and>
   0 < sf_samplerate silent_zero_block \<and> 0 < sf_frames silent_zero_block \<and>
   GetBlockSize silent_zero_block = 0 \<and>
   ComputeMonoDR ref_platform silent_zero_block = Inl DivisionByZero \<and>
   main ref_platform [(''silence.wav'', Some silent_zero_block)] = KILLED \<and>
   stream_ok silent_400MHz \<and> silent (sf_data silent_400MHz) \<and>
   0 < sf_samplerate silent_400MHz \<and> 0 < sf_frames silent_400MHz \<and>
   GetBlockSize silent_400MHz = 1201632640 \<and>
   ComputeStereoDR ref_platform silent_400MHz = Inl SignedOverflow \<and>
   main ref_platform [(''silence.wav'', Some silent_400MHz)] = KILLED"
proof -
  have g: "stream_ok silent_gigahertz" "silent (sf_data silent_gigahertz)"
    "0 < sf_samplerate silent_gigahertz" "0 < sf_frames silent_gigahertz"
    by (simp_all add: silent_gigahertz_def stream_ok_def silent_def)
  have ga: "top_average ref_platform 1 [NaN] = NaN"
    using ref_platform_ok(1) by (rule top_average_single_NaN)
  have z: "stream_ok silent_zero_block" "silent (sf_data silent_zero_block)"
    "0 < sf_samplerate silent_zero_block" "0 < sf_frames silent_zero_block"
    by (simp_all add: silent_zero_block_def stream_ok_def silent_def)
  have zb: "GetBlockSize silent_zero_block = 0"
    by (rule GetBlockSize_zero) (simp add: silent_zero_block_def)
  have "num_blocks_of (sf_frames silent_zero_block) 0 = Inl DivisionByZero"
    by (simp add: silent_zero_block_def num_blocks_of_def in_range_def)
  then have zd: "ComputeMonoDR ref_platform silent_zero_block = Inl DivisionByZero"
    by (simp add: ComputeMonoDR_def mono_stats_of_def Let_def zb)
  then have "ComputeRating ref_platform silent_zero_block = Inl DivisionByZero"
    by (simp add: ComputeRating_def silent_zero_block_def)
  then have zm: "main ref_platform [(''silence.wav'', Some silent_zero_block)] = KILLED"
    by (intro main_single_fault) (simp add: silent_zero_block_def)
  have s: "stream_ok silent_400MHz" "silent (sf_data silent_400MHz)"
    "0 < sf_samplerate silent_400MHz" "0 < sf_frames silent_400MHz"
    by (simp_all add: silent_400MHz_def stream_ok_def silent_def)
  have sb: "GetBlockSize silent_400MHz = 1201632640"
    by (rule GetBlockSize_400MHz) (simp add: silent_400MHz_def)
  have "num_blocks_of (sf_frames silent_400MHz) 1201632640 = Inr 1"
    by (simp add: silent_400MHz_def num_blocks_of_def in_range_def quot_def to_size_t_def)
  then have sd: "ComputeStereoDR ref_platform silent_400MHz = Inl SignedOverflow"
    by (simp add: ComputeStereoDR_def stereo_stats_of_def Let_def sb in_range_def)
  then have "ComputeRating ref_platform silent_400MHz = Inl SignedOverflow"
    by (simp add: ComputeRating_def silent_400MHz_def)
  then have sm: "main ref_platform [(''silence.wav'', Some silent_400MHz)] = KILLED"
    by (intro main_single_fault) (simp add: silent_400MHz_def)
  show ?thesis
    using g silent_gigahertz_stats ga z zb zd zm s sb sd sm by blast
qed

text \<open>
  C6, amended: a stream with at least one frame and at most \<open>2 ^ 62\<close> frames in which
  every sample is a zero (of either sign), mono at a sample rate from 1 to 714000000 or
  stereo at a sample rate from 1 to 357000000 (where the block size, and for stereo twice
  the block size, fit an \<open>int\<close>).  Every block has mean square 0 and peak 0,
  \<open>average_mean_square\<close> is 0 for every channel, the quotient \<open>0 / 0\<close> under the
  logarithm is a NaN and so is the DR of every channel; the functions return it without
  a fault, the final rating is a NaN and \<open>main\<close> shows it as \<open>N/A\<close>.
\<close>

theorem silence_not_rated:
  assumes "stream_ok inp" "sf_channels inp = 1 \<or> sf_channels inp = 2" "silent (sf_data inp)"
    and "1 \<le> sf_frames inp" "sf_frames inp \<le> 2 ^ 62"
    and "1 \<le> sf_samplerate inp"
    and "sf_samplerate inp \<le> (if sf_channels inp = 1 then 714000000 else 357000000)"
    and "0 < Lanes (hwy P)" "nth_element_spec (nth_element P)" "log10_spec (log10 P)"
  shows "(\<exists>nb. 1 \<le> nb \<and>
      (if sf_channels inp = 1
       then mono_stats_of P inp =
              Inr (num_top_blocks_of nb, replicate nb (Fin 0), replicate nb (Fin 0)) \<and>
            ComputeMonoDR P inp = Inr NaN
       else stereo_stats_of P inp =
              Inr (num_top_blocks_of nb,
                \<lparr>left_block_mean_square = replicate nb (Fin 0), left_block_peak = replicate nb (Fin 0),
                 right_block_mean_square = replicate nb (Fin 0), right_block_peak = replicate nb (Fin 0)\<rparr>) \<and>
            ComputeStereoDR P inp = Inr (NaN, NaN)) \<and>
      top_average P (num_top_blocks_of nb) (replicate nb (Fin 0)) = Fin 0) \<and>
    (\<exists>r. ComputeRating P inp = Inr r \<and> final_rating r = NaN \<and> \<not> isfinite (final_rating r) \<and>
      main P [(filename, Some inp)] = EXIT_SUCCESS [(filename, rating r, NA)] None)"
proof -
  have dr: "channel_dr P (Fin 0) (Fin 0) = NaN"
    using log10_spec_NaN [OF assms(10)] by (rule channel_dr_silent)
  have fin: "\<not> isfinite NaN" by (simp add: isfinite_def)
  show ?thesis
  proof (cases "sf_channels inp = 1")
    case True
    then have sr: "sf_samplerate inp \<le> 714000000" using assms(7) by simp
    obtain nb where nb: "1 \<le> nb"
        "mono_stats_of P inp = Inr (num_top_blocks_of nb, replicate nb (Fin 0), replicate nb (Fin 0))"
      using mono_stats_silent [OF assms(1) True assms(3-6) sr assms(8)] by blast
    have k: "0 < num_top_blocks_of nb" "num_top_blocks_of nb \<le> nb"
      using num_top_blocks_bounds [OF nb(1)] by simp_all
    have avg: "top_average P (num_top_blocks_of nb) (replicate nb (Fin 0)) = Fin 0"
      using assms(9) k by (rule top_average_silent)
    have pk: "representative_peak P (replicate nb (Fin 0)) = Fin 0"
      using assms(9) nb(1) by (intro representative_peak_silent) auto
    have m: "ComputeMonoDR P inp = Inr NaN"
      unfolding ComputeMonoDR_def nb(2) using avg pk dr by (simp add: mono_dr_def)
    have r: "ComputeRating P inp = Inr \<lparr>rating = kMonoRating NaN, final_rating = NaN\<rparr>"
      using ComputeRating_mono [OF True m] by simp
    have "main P [(filename, Some inp)] = EXIT_SUCCESS [(filename, kMonoRating NaN, NA)] None"
      using main_single [OF _ r, of filename] True show_rating_NaN by simp
    then show ?thesis using True nb avg m r fin by auto
  next
    case False
    then have two: "sf_channels inp = 2" using assms(2) by simp
    have sr: "sf_samplerate inp \<le> 357000000" using assms(7) False by simp
    obtain nb where nb: "1 \<le> nb"
        "stereo_stats_of P inp = Inr (num_top_blocks_of nb,
          \<lparr>left_block_mean_square = replicate nb (Fin 0), left_block_peak = replicate nb (Fin 0),
           right_block_mean_square = replicate nb (Fin 0), right_block_peak = replicate nb (Fin 0)\<rparr>)"
      using stereo_stats_silent [OF assms(1) two assms(3-6) sr assms(8)] by blast
    have k: "0 < num_top_blocks_of nb" "num_top_blocks_of nb \<le> nb"
      using num_top_blocks_bounds [OF nb(1)] by simp_all
    have avg: "top_average P (num_top_blocks_of nb) (replicate nb (Fin 0)) = Fin 0"
      using assms(9) k by (rule top_average_silent)
    have pk: "representative_peak P (replicate nb (Fin 0)) = Fin 0"
      using assms(9) nb(1) by (intro representative_peak_silent) auto
    have m: "ComputeStereoDR P inp = Inr (NaN, NaN)"
      unfolding ComputeStereoDR_def nb(2) using avg pk dr by (simp add: stereo_dr_def)
    have r: "ComputeRating P inp = Inr \<lparr>rating = kStereoRating NaN NaN, final_rating = NaN\<rparr>"
      using False m by (simp add: ComputeRating_def)
    have "main P [(filename, Some inp)] = EXIT_SUCCESS [(filename, kStereoRating NaN NaN, NA)] None"
      using main_single [OF _ r, of filename] two show_rating_NaN by simp
    then show ?thesis using False nb avg m r fin by auto
  qed
qed

theorem silence_not_rated_witness:
  "stream_ok silent_mono \<and> sf_channels silent_mono = 1 \<and> silent (sf_data silent_mono) \<and>
   stream_ok silent_stereo \<and> sf_channels silent_stereo = 2 \<and> silent (sf_data silent_stereo) \<and>
   ComputeMonoDR ref_platform silent_mono = Inr NaN \<and>
   ComputeStereoDR ref_platform silent_stereo = Inr (NaN, NaN) \<and>
   ComputeRating ref_platform silent_mono = Inr \<lparr>rating = kMonoRating NaN, final_rating = NaN\<rparr> \<and>
   ComputeRating ref_platform silent_stereo
     = Inr \<lparr>rating = kStereoRating NaN NaN, final_rating = NaN\<rparr> \<and>
   main ref_platform [(''silence.wav'', Some silent_mono)]
     = EXIT_SUCCESS [(''silence.wav'', kMonoRating NaN, NA)] None"
proof -
  have m: "stream_ok silent_mono" "sf_channels silent_mono = 1 \<or> sf_channels silent_mono = 2"
    "silent (sf_data silent_mono)" "1 \<le> sf_frames silent_mono" "sf_frames silent_mono \<le> 2 ^ 62"
    "1 \<le> sf_samplerate silent_mono"
    "sf_samplerate silent_mono \<le> (if sf_channels silent_mono = 1 then 714000000 else 357000000)"
    by (simp_all add: silent_mono_def stream_ok_def silent_def)
  have s: "stream_ok silent_stereo" "sf_channels silent_stereo = 1 \<or> sf_channels silent_stereo = 2"
    "silent (sf_data silent_stereo)" "1 \<le> sf_frames silent_stereo" "sf_frames silent_stereo \<le> 2 ^ 62"
    "1 \<le> sf_samplerate silent_stereo"
    "sf_samplerate silent_stereo \<le> (if sf_channels silent_stereo = 1 then 714000000 else 357000000)"
    by (simp_all add: silent_stereo_def stream_ok_def silent_def)
  have c: "sf_channels silent_mono = 1" "sf_channels silent_stereo = 2"
    by (simp_all add: silent_mono_def silent_stereo_def)
  have dm: "ComputeMonoDR ref_platform silent_mono = Inr NaN"
    using silence_not_rated [OF m ref_platform_ok(3,1,2)] c(1) by auto
  have ds: "ComputeStereoDR ref_platform silent_stereo = Inr (NaN, NaN)"
    using silence_not_rated [OF s ref_platform_ok(3,1,2)] c(2) by auto
  have rm: "ComputeRating ref_platform silent_mono = Inr \<lparr>rating = kMonoRating NaN, final_rating = NaN\<rparr>"
    using dm c(1) by (simp add: ComputeRating_def)
  have rs: "ComputeRating ref_platform silent_stereo
      = Inr \<lparr>rating = kStereoRating NaN NaN, final_rating = NaN\<rparr>"
    using ds c(2) by (simp add: ComputeRating_def)
  have "main ref_platform [(''silence.wav'', Some silent_mono)]
      = EXIT_SUCCESS [(''silence.wav'', kMonoRating NaN, NA)] None"
    using silence_not_rated [OF m ref_platform_ok(3,1,2), of "''silence.wav''"] rm by auto
  then show ?thesis using m(1,3) s(1,3) c dm ds rm rs by simp
qed

section \<open>What the partial selection leaves\<close>

lemma not_fgt_iff: "\<not> is_nan a \<Longrightarrow> \<not> is_nan b \<Longrightarrow> \<not> fgt a b \<longleftrightarrow> ext a \<le> ext b"
  by (auto simp: fgt_def not_less)

lemma nth_element_post_parts:
  assumes "nth_element_post n xs ys" "n < length xs" "\<forall>x\<in>set xs. \<not> is_nan x"
  shows "mset ys = mset xs" and "n < length ys"
    and "\<forall>a\<in>set (take n ys). ext (ys ! n) \<le> ext a"
    and "\<forall>c\<in>set (drop (Suc n) ys). ext c \<le> ext (ys ! n)"
proof -
  show m: "mset ys = mset xs" using assms(1) by (simp add: nth_element_post_def)
  then have "length ys = length xs" by (metis size_mset)
  then show n: "n < length ys" using assms(2) by simp
  have "set ys = set xs" using m by (metis set_mset_mset)
  then have nn: "\<forall>y\<in>set ys. \<not> is_nan y" using assms(3) by simp
  then have p: "\<not> is_nan (ys ! n)" using n by simp
  have la: "list_all (\<lambda>y. \<not> fgt (ys ! n) y) (take n ys)"
    and lc: "list_all (\<lambda>y. \<not> fgt y (ys ! n)) (drop (Suc n) ys)"
    using assms(1) n by (simp_all add: nth_element_post_def)
  show "\<forall>a\<in>set (take n ys). ext (ys ! n) \<le> ext a"
  proof
    fix a assume a: "a \<in> set (take n ys)"
    then have "\<not> is_nan a" using nn by (auto dest: in_set_takeD)
    moreover have "\<not> fgt (ys ! n) a" using la a by (simp add: list_all_iff)
    ultimately show "ext (ys ! n) \<le> ext a" using p by (simp add: not_fgt_iff)
  qed
  show "\<forall>c\<in>set (drop (Suc n) ys). ext c \<le> ext (ys ! n)"
  proof
    fix c assume c: "c \<in> set (drop (Suc n) ys)"
    then have "\<not> is_nan c" using nn by (auto dest: in_set_dropD)
    moreover have "\<not> fgt c (ys ! n)" using lc c by (simp add: list_all_iff)
    ultimately show "ext c \<le> ext (ys ! n)" using p by (simp add: not_fgt_iff)
  qed
qed

lemma nth_element_descending:
  assumes "nth_element_post n xs ys" "n < length xs" "\<forall>x\<in>set xs. \<not> is_nan x"
  shows "descending xs =
    rev (sort (map ext (take n ys))) @ ext (ys ! n) # rev (sort (map ext (drop (Suc n) ys)))"
proof -
  note p = nth_element_post_parts [OF assms]
  let ?A = "sort (map ext (take n ys))"
  let ?C = "sort (map ext (drop (Suc n) ys))"
  let ?L = "?C @ ext (ys ! n) # ?A"
  have ys: "ys = take n ys @ ys ! n # drop (Suc n) ys"
    using p(2) by (simp add: id_take_nth_drop [symmetric])
  have "mset (map ext ys) = mset (map ext (take n ys)) + {#ext (ys ! n)#} + mset (map ext (drop (Suc n) ys))"
    by (subst ys) simp
  moreover have "mset (map ext ys) = mset (map ext xs)" using p(1) by simp
  ultimately have m: "mset ?L = mset (map ext xs)" by (simp add: ac_simps)
  have s: "sorted ?L"
    using p(3,4) by (auto simp: sorted_append intro: order_trans)
  have "sort (map ext xs) = ?L"
    using m s by (metis properties_for_sort)
  then show ?thesis by (simp add: descending_def)
qed

lemma nth_element_nth:
  assumes "nth_element_post n xs ys" "n < length xs" "\<forall>x\<in>set xs. \<not> is_nan x"
  shows "ext (ys ! n) = descending xs ! n"
proof -
  have "n < length ys" using nth_element_post_parts(2) [OF assms] .
  then have "length (rev (sort (map ext (take n ys)))) = n" by simp
  then show ?thesis
    unfolding nth_element_descending [OF assms] by (metis nth_append_length)
qed

lemma nth_element_top:
  assumes "nth_element_post n xs ys" "n < length xs" "\<forall>x\<in>set xs. \<not> is_nan x"
  shows "mset (map ext (take (Suc n) ys)) = mset (take (Suc n) (descending xs))"
proof -
  have n: "n < length ys" using nth_element_post_parts(2) [OF assms] .
  then have l: "length (rev (sort (map ext (take n ys)))) = n" by simp
  have "take (Suc n) (descending xs) = rev (sort (map ext (take n ys))) @ [ext (ys ! n)]"
    unfolding nth_element_descending [OF assms] using l by simp
  moreover have "take (Suc n) ys = take n ys @ [ys ! n]"
    using n by (simp add: take_Suc_conv_app_nth)
  ultimately show ?thesis by simp
qed

section \<open>The representative peak\<close>

lemma descending_cong: "mset xs = mset ys \<Longrightarrow> descending xs = descending ys"
proof -
  assume "mset xs = mset ys"
  then have "mset (map ext xs) = mset (map ext ys)" by simp
  then have "sort (map ext xs) = sort (map ext ys)"
    by (metis properties_for_sort sorted_sort mset_sort)
  then show ?thesis by (simp add: descending_def)
qed

lemma lazy_select_spec: "nth_element_spec lazy_select"
  using sort_desc_spec by (simp add: nth_element_spec_def lazy_select_def)

lemma to_size_t_pred:
  assumes "0 < n" "n < 2 ^ 64"
  shows "to_size_t (int n - 1) = n - 1"
proof -
  have "int n < 2 ^ 64" using assms(2) by (metis of_nat_less_numeral_power_cancel_iff)
  then have "(int n - 1) mod 2 ^ 64 = int n - 1" using assms(1) by (intro mod_pos_pos_trivial) auto
  then show ?thesis using assms(1) by (simp add: to_size_t_def nat_diff_distrib)
qed

lemma representative_peak_descending:
  assumes "nth_element_spec (nth_element P)" "block_peak \<noteq> []" "length block_peak < 2 ^ 64"
    and "\<forall>x\<in>set block_peak. \<not> is_nan x"
  shows "ext (representative_peak P block_peak) = descending block_peak ! min 1 (length block_peak - 1)"
proof -
  let ?v = "nth_element P 1 block_peak"
  have post: "nth_element_post 1 block_peak ?v"
    using assms(1) by (simp add: nth_element_spec_def)
  have len: "length ?v = length block_peak" using assms(1) by (rule nth_element_length)
  have idx: "to_size_t (int (length ?v) - 1) = length block_peak - 1"
    unfolding len using assms(2,3) by (intro to_size_t_pred) auto
  have m: "ext (?v ! min 1 (length block_peak - 1)) = descending block_peak ! min 1 (length block_peak - 1)"
  proof (cases "length block_peak = 1")
    case True
    then obtain b where b: "block_peak = [b]" by (cases block_peak) auto
    then show ?thesis by (simp add: nth_element_single [OF assms(1)] descending_def)
  next
    case False
    then have "1 < length block_peak" using assms(2) by (cases block_peak) auto
    then show ?thesis using nth_element_nth [OF post _ assms(4)] by simp
  qed
  show ?thesis unfolding representative_peak_def Let_def idx by (rule m)
qed

text \<open>
  C3.  For every non-empty sequence of per-block peaks without a NaN (of a length that
  a \<open>std::vector\<close> can have), the representative peak has the value at index
  \<open>min (1, num_blocks - 1)\<close> of the sequence in descending order: the second largest
  value when there are at least two blocks.  Of a single block it is that block's peak.
\<close>

theorem representative_peak_second:
  assumes "nth_element_spec (nth_element P)" "block_peak \<noteq> []" "length block_peak < 2 ^ 64"
    and "\<forall>x\<in>set block_peak. \<not> is_nan x"
  shows "ext (representative_peak P block_peak) = descending block_peak ! min 1 (length block_peak - 1) \<and>
    representative_peak P [a] = a"
  using representative_peak_descending [OF assms] representative_peak_single [OF assms(1)]
  by blast

lemma scenario_peak_order:
  "descending scenario_peak ! min 1 (length scenario_peak - 1) = (0, 5033165 / 16777216)"
  by code_simp

lemma scenario_floats:
  "round32 (1 / 10) = Fin (13421773 / 134217728)" "round32 (2 / 10) = Fin (13421773 / 67108864)"
  "round32 (9 / 10) = Fin (15099494 / 16777216)" "round32 (5 / 100) = Fin (13421773 / 268435456)"
  "round32 (3 / 10) = Fin (5033165 / 16777216)"
  by code_simp+

lemma round32_not_nan [simp]: "\<not> is_nan (round32 x)"
  by (simp add: round32_def Let_def)

lemma scenario_peak_valid: "scenario_peak \<noteq> []" "length scenario_peak < 2 ^ 64"
  "\<forall>x\<in>set scenario_peak. \<not> is_nan x"
  by (simp_all add: scenario_peak_def)

theorem representative_peak_second_witness:
  "nth_element_spec (nth_element ref_platform) \<and> scenario_peak \<noteq> [] \<and>
   length scenario_peak < 2 ^ 64 \<and> NaN \<notin> set scenario_peak \<and>
   ext (representative_peak ref_platform scenario_peak) = (0, 5033165 / 16777216)"
proof -
  from representative_peak_second [OF ref_platform_ok(1) scenario_peak_valid, of "Fin 0"]
  have "ext (representative_peak ref_platform scenario_peak) = (0, 5033165 / 16777216)"
    unfolding scenario_peak_order by blast
  moreover have "NaN \<notin> set scenario_peak" using scenario_peak_valid(3) by auto
  ultimately show ?thesis using ref_platform_ok(1) scenario_peak_valid(1,2) by blast
qed

section \<open>The average of the top blocks\<close>

lemma top_blocks_le: "xs \<noteq> [] \<Longrightarrow> num_top_blocks_of (length xs) \<le> length xs"
  by (cases xs) (simp_all add: num_top_blocks_of_def)

lemma top_blocks_pos: "0 < num_top_blocks_of n"
  by (simp add: num_top_blocks_of_def)

lemma lazy_select_quiet:
  "lazy_select 3 quiet_blocks = quiet_blocks"
  "lazy_select 3 quiet_blocks_reordered = quiet_blocks_reordered"
  by (simp_all add: lazy_select_def nth_element_post_def quiet_blocks_def
      quiet_blocks_reordered_def fgt_def list_all_iff)

lemma quiet_sums:
  "fadd (fadd (fadd (fadd (Fin 0) (Fin 1)) (Fin (1 / 16777216))) (Fin (1 / 16777216))) (Fin (1 / 16777216))
     = Fin 1"
  "fadd (fadd (fadd (fadd (Fin 0) (Fin (1 / 16777216))) (Fin (1 / 16777216))) (Fin 1)) (Fin (1 / 16777216))
     = Fin (4194305 / 4194304)"
  by code_simp+

lemma quiet_scale:
  "fmul (Fin 1) (fdiv (Fin 2) (f32_of_nat 4)) = Fin (1 / 2)"
  "fmul (Fin (4194305 / 4194304)) (fdiv (Fin 2) (f32_of_nat 4)) = Fin (4194305 / 8388608)"
  by code_simp+

lemma quiet_top_average:
  "top_average lazy_platform 4 quiet_blocks = Fin (1 / 2)"
  "top_average lazy_platform 4 quiet_blocks_reordered = Fin (4194305 / 8388608)"
proof -
  have n: "nth_element lazy_platform = lazy_select" by (simp add: lazy_platform_def)
  have "sum_first quiet_blocks 0 4 (Fin 0) = Fin 1"
    by (simp add: sum_first_foldl quiet_blocks_def quiet_sums)
  then show "top_average lazy_platform 4 quiet_blocks = Fin (1 / 2)"
    by (simp add: top_average_def n lazy_select_quiet quiet_scale)
  have "sum_first quiet_blocks_reordered 0 4 (Fin 0) = Fin (4194305 / 4194304)"
    by (simp add: sum_first_foldl quiet_blocks_reordered_def quiet_sums)
  then show "top_average lazy_platform 4 quiet_blocks_reordered = Fin (4194305 / 8388608)"
    by (simp add: top_average_def n lazy_select_quiet quiet_scale)
qed

lemma quiet_descending:
  "take 4 (descending quiet_blocks) = [(0, 1), (0, 1 / 16777216), (0, 1 / 16777216), (0, 1 / 16777216)]"
  by code_simp

text \<open>
  C2, as stated: it fails in single precision.  Twenty blocks, the four largest mean
  squares \<open>1\<close> and three times \<open>2 ^ - 24\<close>; \<open>num_top_blocks = 4\<close>.  With an \<open>nth_element\<close>
  that leaves a sequence alone when it is already partitioned, the sequence with the
  loud block first gives \<open>((1 + 2 ^ - 24) + 2 ^ - 24) + 2 ^ - 24 = 1\<close> and an average of
  \<open>1 / 2\<close>, the same values with the loud block third give
  \<open>((2 ^ - 24 + 2 ^ - 24) + 1) + 2 ^ - 24 = 1 + 2 ^ - 22\<close> and an average of
  \<open>1 / 2 + 2 ^ - 23\<close>: the result depends on the order of the input, and neither is
  the sum of the four largest values times 2 divided by 4.  That number,
  \<open>(2 ^ 25 + 3) / 2 ^ 26\<close>, is no binary32 number at all, so no \<open>nth_element\<close> whatever
  makes the \<open>float\<close> equal to it.
\<close>

theorem top_average_counterexample:
  "nth_element_spec (nth_element lazy_platform) \<and>
   mset quiet_blocks_reordered = mset quiet_blocks \<and>
   num_top_blocks_of (length quiet_blocks) = 4 \<and>
   take 4 (descending quiet_blocks) = [(0, 1), (0, 1 / 16777216), (0, 1 / 16777216), (0, 1 / 16777216)] \<and>
   top_average lazy_platform 4 quiet_blocks = Fin (1 / 2) \<and>
   top_average lazy_platform 4 quiet_blocks_reordered = Fin (4194305 / 8388608) \<and>
   top_average lazy_platform 4 quiet_blocks \<noteq> top_average lazy_platform 4 quiet_blocks_reordered \<and>
   (1 + 1 / 16777216 + 1 / 16777216 + 1 / 16777216) * 2 / 4 \<noteq> (1 / 2 :: real) \<and>
   (1 + 1 / 16777216 + 1 / 16777216 + 1 / 16777216) * 2 / 4 \<noteq> (4194305 / 8388608 :: real) \<and>
   rnd ((1 + 1 / 16777216 + 1 / 16777216 + 1 / 16777216) * 2 / 4)
     \<noteq> (1 + 1 / 16777216 + 1 / 16777216 + 1 / 16777216) * 2 / 4"
proof -
  have "nth_element_spec (nth_element lazy_platform)"
    by (simp add: lazy_platform_def lazy_select_spec)
  moreover have "mset quiet_blocks_reordered = mset quiet_blocks"
    by (simp add: quiet_blocks_def quiet_blocks_reordered_def)
  moreover have "num_top_blocks_of (length quiet_blocks) = 4"
    by (simp add: quiet_blocks_def num_top_blocks_of_def)
  moreover have "rnd ((1 + 1 / 16777216 + 1 / 16777216 + 1 / 16777216) * 2 / 4)
     \<noteq> (1 + 1 / 16777216 + 1 / 16777216 + 1 / 16777216) * 2 / 4"
    by code_simp
  ultimately show ?thesis
    by (simp add: quiet_top_average quiet_descending)
qed

text \<open>
  C2, amended: for every non-empty sequence of mean squares without a NaN, the first
  \<open>num_top_blocks\<close> values behind the partial selection are, as a multiset of values, the
  \<open>num_top_blocks\<close> largest of the sequence, whatever the order of the input (any
  rearrangement of the input gives the same multiset); \<open>average_mean_square\<close> is their
  single-precision sum, added up from 0 in the order in which the selection leaves
  them, times the single-precision quotient \<open>2 / num_top_blocks\<close>.
\<close>

theorem top_average_selects:
  assumes "nth_element_spec (nth_element P)" "block_mean_square \<noteq> []"
    and "\<forall>x\<in>set block_mean_square. \<not> is_nan x"
    and "mset reordered = mset block_mean_square"
    and "k = num_top_blocks_of (length block_mean_square)"
  shows "mset (map ext (take k (nth_element P (k - 1) block_mean_square)))
      = mset (take k (descending block_mean_square)) \<and>
    mset (map ext (take k (nth_element P (k - 1) reordered)))
      = mset (take k (descending block_mean_square)) \<and>
    top_average P k block_mean_square
      = fmul (foldl fadd (Fin 0) (take k (nth_element P (k - 1) block_mean_square)))
          (fdiv (Fin 2) (f32_of_nat k))"
proof -
  have k: "0 < k" "k \<le> length block_mean_square"
    using assms(2) by (simp_all add: assms(5) top_blocks_pos top_blocks_le)
  then have sk: "Suc (k - 1) = k" "k - 1 < length block_mean_square" by simp_all
  have post: "nth_element_post (k - 1) xs (nth_element P (k - 1) xs)" for xs
    using assms(1) by (simp add: nth_element_spec_def)
  have 1: "mset (map ext (take k (nth_element P (k - 1) block_mean_square)))
      = mset (take k (descending block_mean_square))"
    using nth_element_top [OF post sk(2) assms(3)] by (simp only: sk(1))
  have len: "length reordered = length block_mean_square"
    using assms(4) by (metis size_mset)
  have "set reordered = set block_mean_square" using assms(4) by (metis set_mset_mset)
  then have nn: "\<forall>x\<in>set reordered. \<not> is_nan x" using assms(3) by simp
  have "mset (map ext (take k (nth_element P (k - 1) reordered)))
      = mset (take k (descending reordered))"
    using nth_element_top [OF post _ nn] sk(2) len by (simp only: sk(1))
  then have 2: "mset (map ext (take k (nth_element P (k - 1) reordered)))
      = mset (take k (descending block_mean_square))"
    by (simp only: descending_cong [OF assms(4)])
  have "k \<le> length (nth_element P (k - 1) block_mean_square)"
    using k(2) by (simp add: nth_element_length [OF assms(1)])
  then have 3: "top_average P k block_mean_square
      = fmul (foldl fadd (Fin 0) (take k (nth_element P (k - 1) block_mean_square)))
          (fdiv (Fin 2) (f32_of_nat k))"
    by (simp add: top_average_def Let_def sum_first_foldl)
  from 1 2 3 show ?thesis by blast
qed

theorem top_average_selects_witness:
  "nth_element_spec (nth_element lazy_platform) \<and> quiet_blocks \<noteq> [] \<and>
   NaN \<notin> set quiet_blocks \<and> mset quiet_blocks_reordered = mset quiet_blocks \<and>
   4 = num_top_blocks_of (length quiet_blocks) \<and>
   mset (map ext (take 4 (nth_element lazy_platform (4 - 1) quiet_blocks)))
     = mset [(0, 1), (0, 1 / 16777216), (0, 1 / 16777216), (0, 1 / 16777216)] \<and>
   mset (map ext (take 4 (nth_element lazy_platform (4 - 1) quiet_blocks_reordered)))
     = mset [(0, 1), (0, 1 / 16777216), (0, 1 / 16777216), (0, 1 / 16777216)]"
proof -
  have h: "nth_element_spec (nth_element lazy_platform)" "quiet_blocks \<noteq> []"
    "\<forall>x\<in>set quiet_blocks. \<not> is_nan x" "mset quiet_blocks_reordered = mset quiet_blocks"
    "4 = num_top_blocks_of (length quiet_blocks)"
    by (simp_all add: lazy_platform_def lazy_select_spec quiet_blocks_def
        quiet_blocks_reordered_def num_top_blocks_of_def)
  have "NaN \<notin> set quiet_blocks" using h(3) by auto
  with top_average_selects [OF h] h(1,2,4,5) show ?thesis
    unfolding quiet_descending by blast
qed

section \<open>Stereo symmetry\<close>

lemma round32_cases:
  "round32 x = PInf \<or> round32 x = NInf \<or> round32 x = NZero \<or>
   (round32 x = Fin (rnd x) \<and> \<bar>rnd x\<bar> < 2 ^ 128)"
  by (auto simp: round32_def Let_def)

lemma is_f32_round32 [simp]: "is_f32 (round32 x)"
  using round32_cases [of x] by (auto simp: is_f32_def)

lemma is_f32_special [simp]: "is_f32 NaN" "is_f32 (signed_inf s)" "is_f32 (signed_zero s)"
  by (simp_all add: is_f32_def signed_inf_def signed_zero_def)

lemma is_f32_fdiv [simp]: "is_f32 (fdiv a b)"
  by (simp add: fdiv_def)

lemma rnd_double:
  assumes "rnd v = v"
  shows "rnd (2 * v) = 2 * v"
proof -
  have "repr v" using rnd_repr [of v] assms by simp
  then have "repr (2 * v)" by (rule repr_double)
  then show ?thesis by (rule rnd_fix)
qed

lemma double_half:
  assumes "halvable x"
  shows "fdiv (fadd x x) (Fin 2) = x"
proof (cases x)
  case (Fin v)
  then have v: "rnd v = v" "\<bar>v\<bar> < 2 ^ 127" using assms by (simp_all add: halvable_def)
  show ?thesis
  proof (cases "v = 0")
    case True
    then show ?thesis using Fin by (simp add: fadd_def fdiv_def signed_zero_def)
  next
    case False
    have "\<bar>2 * v\<bar> < 2 ^ 128" using v(2) by simp
    then have "round32 (v + v) = Fin (2 * v)"
      using rnd_double [OF v(1)] False by (simp add: round32_def Let_def)
    then have 1: "fadd (Fin v) (Fin v) = Fin (2 * v)" by (simp add: fadd_def)
    have "\<bar>v\<bar> < 2 ^ 128" using v(2) by simp
    then have "round32 (2 * v / 2) = Fin v" using v(1) False by (simp add: round32_def Let_def)
    then show ?thesis unfolding Fin 1 using False by (simp add: fdiv_def)
  qed
qed (simp_all add: fadd_def fdiv_def signed_zero_def signed_inf_def)

lemma rnd_650: "rnd 650 = 650" "rnd (- 650) = - 650"
  by code_simp+

lemma halvable_times_ten:
  assumes "\<bar>y\<bar> \<le> 65"
  shows "halvable (fmul (Fin 10) (Fin y))"
proof (cases "y = 0")
  case True
  then show ?thesis by (simp add: fmul_def signed_zero_def halvable_def)
next
  case False
  have "10 * y \<le> 650" "- 650 \<le> 10 * y" using assms by simp_all
  then have "rnd (10 * y) \<le> 650" "- 650 \<le> rnd (10 * y)"
    using rnd_mono [of "10 * y" 650] rnd_mono [of "- 650" "10 * y"] by (simp_all add: rnd_650)
  then have "\<bar>rnd (10 * y)\<bar> < 2 ^ 127" by simp
  then have "halvable (round32 (10 * y))"
    using round32_cases [of "10 * y"] by (auto simp: halvable_def)
  then show ?thesis using False by (simp add: fmul_def)
qed

lemma halvable_special [simp]: "halvable NaN" "halvable PInf" "halvable NInf" "halvable NZero"
  by (simp_all add: halvable_def)

lemma halvable_channel_dr:
  assumes "log10_spec (log10 P)"
  shows "halvable (channel_dr P peak average_mean_square)"
proof -
  define q where "q = fdiv (fmul peak peak) average_mean_square"
  have v: "is_f32 q" by (simp add: q_def)
  have ten: "f32_of_int 10 = Fin 10" by (rule f32_of_int_consts)
  note sp = assms [unfolded log10_spec_def]
  have "halvable (fmul (Fin 10) (log10 P q))"
  proof (cases q)
    case (Fin r)
    consider "r = 0" | "r < 0" | "0 < r" by linarith
    then show ?thesis
    proof cases
      case 1
      then show ?thesis using sp Fin by (simp add: fmul_def signed_inf_def)
    next
      case 2
      then show ?thesis using sp Fin by simp
    next
      case 3
      then obtain y where y: "log10 P (Fin r) = Fin y" "\<bar>y - log 10 r\<bar> \<le> 1 / 2 ^ 16"
        using sp v Fin by blast
      have "\<bar>log 10 r\<bar> < 64" using v 3 unfolding Fin by (rule log10_f32_bound)
      moreover have "1 / 2 ^ 16 \<le> (1::real)" by simp
      ultimately have "\<bar>y\<bar> \<le> 65" using y(2) by linarith
      then show ?thesis using Fin y(1) by (simp add: halvable_times_ten)
    qed
  next
    case NZero
    then show ?thesis using sp by (simp add: fmul_def signed_inf_def)
  next
    case PInf
    then show ?thesis using sp by (simp add: fmul_def signed_inf_def)
  next
    case NInf
    then show ?thesis using sp by simp
  next
    case NaN
    then show ?thesis using sp by simp
  qed
  then show ?thesis by (simp add: channel_dr_def ten q_def)
qed

text \<open>
  C7.  A stereo stream whose left and right statistics (mean squares and peaks of the
  blocks) are the same sequences: \<open>ComputeStereoDR\<close> returns the same DR for both
  channels, and the final rating \<open>round ((left + right) / 2)\<close> is the rounded left DR.
  The second part needs the sum \<open>left + left\<close> not to overflow, which the range of
  \<open>log10\<close> on the binary32 numbers ensures.
\<close>

theorem stereo_symmetry:
  assumes "log10_spec (log10 P)" "sf_channels inp = 2"
    and "stereo_stats_of P inp = Inr (num_top_blocks, stats)"
    and "left_block_mean_square stats = right_block_mean_square stats"
    and "left_block_peak stats = right_block_peak stats"
  shows "\<exists>left_dr right_dr r.
    ComputeStereoDR P inp = Inr (left_dr, right_dr) \<and> left_dr = right_dr \<and>
    ComputeRating P inp = Inr r \<and> rating r = kStereoRating left_dr right_dr \<and>
    final_rating r = fround left_dr"
proof -
  define x where "x = channel_dr P (representative_peak P (left_block_peak stats))
    (top_average P num_top_blocks (left_block_mean_square stats))"
  have dr: "ComputeStereoDR P inp = Inr (x, x)"
    by (simp add: ComputeStereoDR_def assms(3) stereo_dr_def Let_def x_def assms(4,5) [symmetric])
  have "halvable x" unfolding x_def using assms(1) by (rule halvable_channel_dr)
  then have "fdiv (fadd x x) (Fin 2) = x" by (rule double_half)
  then have "ComputeRating P inp = Inr \<lparr>rating = kStereoRating x x, final_rating = fround x\<rparr>"
    using assms(2) by (simp add: dr ComputeRating_def f32_of_int_consts)
  then show ?thesis using dr by simp
qed

lemma twin_block_size: "GetBlockSize twin_stereo = 132480"
  by (simp add: GetBlockSize_def twin_stereo_def block_float_44100 round_away_def wrap_signed_def)

lemma twin_num_blocks: "num_blocks_of (sf_frames twin_stereo) 132480 = Inr 1"
  by (simp add: twin_stereo_def num_blocks_of_def in_range_def quot_def to_size_t_def)

lemma twin_read:
  "readf twin_stereo 132480 =
     (([Fin (1 / 2), Fin (1 / 2), Fin (- (1 / 4)), Fin (- (1 / 4)), Fin (1 / 8), Fin (1 / 8)], 3),
      twin_stereo\<lparr>sf_data := []\<rparr>)"
  by (simp add: readf_def twin_stereo_def)

lemma twin_block:
  "stereo_block \<lparr>Lanes = 4, HasFMA = True\<rparr>
     [Fin (1 / 2), Fin (1 / 2), Fin (- (1 / 4)), Fin (- (1 / 4)), Fin (1 / 8), Fin (1 / 8)] 3
   = ((Fin (7 / 64), Fin (1 / 2)), (Fin (7 / 64), Fin (1 / 2)))"
  by code_simp

lemma twin_stats: "stereo_stats_of ref_platform twin_stereo =
    Inr (1, \<lparr>left_block_mean_square = [Fin (7 / 64)], left_block_peak = [Fin (1 / 2)],
             right_block_mean_square = [Fin (7 / 64)], right_block_peak = [Fin (1 / 2)]\<rparr>)"
proof -
  have "stereo_blocks \<lparr>Lanes = 4, HasFMA = True\<rparr> 132480 (Suc 0) twin_stereo
     \<lparr>left_block_mean_square = [], left_block_peak = [],
      right_block_mean_square = [], right_block_peak = []\<rparr> =
    \<lparr>left_block_mean_square = [Fin (7 / 64)], left_block_peak = [Fin (1 / 2)],
     right_block_mean_square = [Fin (7 / 64)], right_block_peak = [Fin (1 / 2)]\<rparr>"
    by (simp add: twin_read twin_block)
  then show ?thesis
    by (simp add: stereo_stats_of_def Let_def ref_platform_def twin_block_size twin_num_blocks
        in_range_def max_size_def num_top_blocks_of_def)
qed

theorem stereo_symmetry_witness:
  "log10_spec (log10 ref_platform) \<and> sf_channels twin_stereo = 2 \<and>
   stereo_stats_of ref_platform twin_stereo =
     Inr (1, \<lparr>left_block_mean_square = [Fin (7 / 64)], left_block_peak = [Fin (1 / 2)],
              right_block_mean_square = [Fin (7 / 64)], right_block_peak = [Fin (1 / 2)]\<rparr>) \<and>
   (\<exists>x r. ComputeStereoDR ref_platform twin_stereo = Inr (x, x) \<and>
      ComputeRating ref_platform twin_stereo = Inr r \<and> rating r = kStereoRating x x \<and>
      final_rating r = fround x)"
proof -
  have h: "sf_channels twin_stereo = 2" by (simp add: twin_stereo_def)
  from stereo_symmetry [OF ref_platform_ok(2) h twin_stats] h ref_platform_ok(2) twin_stats
  show ?thesis by auto
qed

section \<open>The worked scenario\<close>

lemma log10_power_of_ten: "log 10 (1 / 10 ^ p) = - real p"
proof -
  have "log 10 ((10::real) ^ p) = real p" by (rule log_pow_cancel) simp_all
  then show ?thesis by (simp add: log_divide)
qed

lemma log10_gt:
  assumes "0 < x" "0 < n" "1 / 10 ^ p < x ^ n"
  shows "- (real p / real n) < log 10 x"
proof -
  have "log 10 (1 / 10 ^ p) < log 10 (x ^ n)"
    using assms by (subst log_less_cancel_iff) simp_all
  then have "- real p < real n * log 10 x"
    using assms(1) by (simp add: log10_power_of_ten log_nat_power)
  then show ?thesis using assms(2) by (simp add: field_simps)
qed

lemma log10_lt:
  assumes "0 < x" "0 < n" "x ^ n < 1 / 10 ^ p"
  shows "log 10 x < - (real p / real n)"
proof -
  have "log 10 (x ^ n) < log 10 (1 / 10 ^ p)"
    using assms by (subst log_less_cancel_iff) simp_all
  then have "real n * log 10 x < - real p"
    using assms(1) by (simp add: log10_power_of_ten log_nat_power)
  then show ?thesis using assms(2) by (simp add: field_simps)
qed

lemma scenario_powers:
  "1 / 10 ^ 88 < (9663677 / 1073741824 :: real) ^ 43"
  "(9663677 / 1073741824 :: real) ^ 22 < 1 / 10 ^ 45"
  "1 / 10 ^ 88 < (0.09 / 10 :: real) ^ 43"
  "(0.09 / 10 :: real) ^ 22 < 1 / 10 ^ 45"
  by (simp_all add: power_divide)

lemma scenario_log_bounds:
  "- (88 / 43) < log 10 (9663677 / 1073741824)" "log 10 (9663677 / 1073741824) < - (45 / 22)"
  "- (88 / 43) < log 10 (0.09 / 10)" "log 10 (0.09 / 10) < - (45 / 22)"
proof -
  show "- (88 / 43) < log 10 (9663677 / 1073741824)"
    using log10_gt [OF _ _ scenario_powers(1)] by simp
  show "log 10 (9663677 / 1073741824) < - (45 / 22)"
    using log10_lt [OF _ _ scenario_powers(2)] by simp
  show "- (88 / 43) < log 10 (0.09 / 10)"
    using log10_gt [OF _ _ scenario_powers(3)] by simp
  show "log 10 (0.09 / 10) < - (45 / 22)"
    using log10_lt [OF _ _ scenario_powers(4)] by simp
qed

lemma fexp_lt_32:
  assumes "\<bar>x\<bar> < 32"
  shows "fexp x \<le> - 19"
proof (cases "x = 0")
  case True
  then show ?thesis by (simp add: fexp_def flog2_def bitlen_def)
next
  case False
  have "(2::real) powi flog2 \<bar>x\<bar> \<le> \<bar>x\<bar>" using False by (intro flog2_bounds) simp
  also have "\<bar>x\<bar> < 2 powi 5" using assms by simp
  finally have "(2::real) powi flog2 \<bar>x\<bar> < 2 powi 5" .
  then have "flog2 \<bar>x\<bar> < 5" by (simp only: p2_less_iff)
  then show ?thesis by (simp add: fexp_def)
qed

lemma rnd_error_32:
  assumes "\<bar>x\<bar> < 32"
  shows "\<bar>rnd x - x\<bar> \<le> 1 / 2 ^ 20"
proof -
  have "\<bar>rnd x - x\<bar> \<le> 2 powi fexp x / 2" by (rule rnd_error)
  also have "\<dots> \<le> 2 powi (- 19) / 2"
  proof -
    have "(2::real) powi fexp x \<le> 2 powi (- 19)" using fexp_lt_32 [OF assms] by (simp only: p2_le_iff)
    then show ?thesis by (rule divide_right_mono) simp
  qed
  also have "\<dots> = 1 / 2 ^ 20" by (simp add: power_int_minus_divide)
  finally show ?thesis .
qed

lemma Fin_of_ext:
  assumes "x \<in> set xs" "\<forall>y\<in>set xs. y = Fin (fval y)" "ext x = (0, c)"
  shows "x = Fin c"
proof -
  have "x = Fin (fval x)" using assms(1,2) by blast
  moreover from this have "ext x = (0, fval x)" by (metis ext.simps(1))
  ultimately show ?thesis using assms(3) by simp
qed

lemma representative_peak_mem:
  assumes "nth_element_spec (nth_element P)" "block_peak \<noteq> []"
  shows "representative_peak P block_peak \<in> set block_peak"
proof -
  let ?v = "nth_element P 1 block_peak"
  have "0 < length ?v" using assms by (simp add: nth_element_length)
  then have "min 1 (to_size_t (int (length ?v) - 1)) < length ?v" by (rule peak_index_bound)
  then have "?v ! min 1 (to_size_t (int (length ?v) - 1)) \<in> set ?v" by (rule nth_mem)
  then show ?thesis by (simp add: representative_peak_def Let_def nth_element_set [OF assms(1)])
qed

lemma scenario_descending:
  "descending scenario_mean_square ! 0 = (0, 5)"
  "descending scenario_peak ! min 1 (length scenario_peak - 1) = (0, 5033165 / 16777216)"
  by code_simp+

lemma scenario_peak_eval:
  "scenario_peak = [Fin (13421773 / 134217728), Fin (13421773 / 67108864),
     Fin (7549747 / 8388608), Fin (13421773 / 268435456), Fin (5033165 / 16777216)]"
  by code_simp

lemma scenario_all_Fin:
  "\<forall>y\<in>set scenario_mean_square. y = Fin (fval y)" "\<forall>y\<in>set scenario_peak. y = Fin (fval y)"
  by (simp_all add: scenario_mean_square_def scenario_peak_eval)

lemma scenario_top_average:
  assumes "nth_element_spec (nth_element P)"
  shows "top_average P 1 scenario_mean_square = Fin 10"
proof -
  let ?v = "nth_element P 0 scenario_mean_square"
  have post: "nth_element_post 0 scenario_mean_square ?v"
    using assms by (simp add: nth_element_spec_def)
  have nn: "\<forall>x\<in>set scenario_mean_square. \<not> is_nan x"
    by (simp add: scenario_mean_square_def)
  have len: "length ?v = 5"
    using nth_element_length [OF assms, of 0 scenario_mean_square]
    by (simp add: scenario_mean_square_def)
  have l5: "0 < length scenario_mean_square" by (simp add: scenario_mean_square_def)
  have "ext (?v ! 0) = (0, 5)"
    using nth_element_nth [OF post l5 nn] by (simp only: scenario_descending)
  moreover have "?v ! 0 \<in> set scenario_mean_square"
    using nth_mem [of 0 ?v] len by (simp add: nth_element_set [OF assms])
  ultimately have top: "?v ! 0 = Fin 5"
    using scenario_all_Fin(1) by (intro Fin_of_ext)
  have "take 1 ?v = [?v ! 0]" using len by (cases ?v) simp_all
  then have "sum_first ?v 0 1 (Fin 0) = fadd (Fin 0) (Fin 5)"
    using len by (simp add: sum_first_foldl top)
  moreover have "fmul (fadd (Fin 0) (Fin 5)) (fdiv (Fin 2) (f32_of_nat 1)) = Fin 10"
    by code_simp
  ultimately show ?thesis by (simp add: top_average_def)
qed

lemma scenario_peak_rep:
  assumes "nth_element_spec (nth_element P)"
  shows "representative_peak P scenario_peak = Fin (5033165 / 16777216)"
proof -
  have ne: "scenario_peak \<noteq> []" "length scenario_peak < 2 ^ 64"
    "\<forall>x\<in>set scenario_peak. \<not> is_nan x"
    by (simp_all add: scenario_peak_def)
  have "ext (representative_peak P scenario_peak) = (0, 5033165 / 16777216)"
    using representative_peak_descending [OF assms ne] by (simp only: scenario_descending)
  moreover have "representative_peak P scenario_peak \<in> set scenario_peak"
    using assms ne(1) by (rule representative_peak_mem)
  ultimately show ?thesis using scenario_all_Fin(2) by (intro Fin_of_ext)
qed

lemma scenario_quotient:
  "fdiv (fmul (Fin (5033165 / 16777216)) (Fin (5033165 / 16777216))) (Fin 10)
     = Fin (9663677 / 1073741824)"
  "is_f32 (Fin (9663677 / 1073741824))"
  by code_simp+

lemma scenario_rating:
  assumes "\<bar>y - log 10 (9663677 / 1073741824)\<bar> \<le> 1 / 2 ^ 16"
  shows "\<exists>d. fmul (Fin 10) (Fin y) = Fin d \<and> \<bar>d - 10 * log 10 (0.09 / 10)\<bar> \<le> 1 / 80 \<and>
    \<bar>d - (- 20.46)\<bar> \<le> 1 / 100 \<and> round_away d = - 20"
proof -
  note b = scenario_log_bounds
  have d16: "(1::real) / 2 ^ 16 = 1 / 65536" "(1::real) / 2 ^ 20 = 1 / 1048576" by simp_all
  have y: "- (88 / 43) - 1 / 65536 < y" "y < - (45 / 22) + 1 / 65536"
    using assms b(1,2) unfolding d16 by linarith+
  then have "\<bar>10 * y\<bar> < 32" by linarith
  then have e: "\<bar>rnd (10 * y) - 10 * y\<bar> \<le> 1 / 1048576"
    using rnd_error_32 [of "10 * y"] unfolding d16 by simp
  define d where "d = rnd (10 * y)"
  have d: "- (880 / 43) - 10 / 65536 - 1 / 1048576 < d" "d < - (450 / 22) + 10 / 65536 + 1 / 1048576"
    using e y unfolding d_def by linarith+
  have "\<bar>d\<bar> < 2 ^ 128" using d by simp
  moreover have "d \<noteq> 0" using d by simp
  ultimately have "round32 (10 * y) = Fin d" unfolding d_def by (intro round32_Fin) auto
  moreover have "y \<noteq> 0" using y by simp
  ultimately have 1: "fmul (Fin 10) (Fin y) = Fin d" by (simp add: fmul_def)
  have 2: "\<bar>d - 10 * log 10 (0.09 / 10)\<bar> \<le> 1 / 80" using d b(3,4) by linarith
  have "(20.46::real) = 1023 / 50" by simp
  then have 3: "\<bar>d - (- 20.46)\<bar> \<le> 1 / 100" using d by linarith
  have "\<lfloor>- d + 1 / 2\<rfloor> = 20" using d by (simp add: floor_eq_iff)
  then have 4: "round_away d = - 20" using d by (simp add: round_away_def)
  from 1 2 3 4 show ?thesis by blast
qed

text \<open>
  C1.  The worked scenario: five blocks with mean squares 1, 2, 3, 4, 5 and peaks the
  \<open>float\<close> values of 0.1, 0.2, 0.9, 0.05, 0.3.  \<open>num_top_blocks\<close> is 1,
  \<open>average_mean_square\<close> is exactly 10, the representative peak is the \<open>float\<close> 0.3,
  the DR is a finite number within \<open>1 / 80\<close> of \<open>10 * log10 (0.09 / 10)\<close> and within
  \<open>1 / 100\<close> of \<open>- 20.46\<close>, and its rounding, the final rating, is \<open>- 20\<close>: for every
  \<open>nth_element\<close> and every \<open>log10\<close> that meet their contracts.
\<close>

theorem worked_scenario:
  assumes "nth_element_spec (nth_element P)" "log10_spec (log10 P)"
  shows "num_top_blocks_of (length scenario_mean_square) = 1 \<and>
    top_average P 1 scenario_mean_square = Fin 10 \<and>
    representative_peak P scenario_peak = round32 (3 / 10) \<and>
    (\<exists>d. mono_dr P 1 scenario_mean_square scenario_peak = Fin d \<and>
         \<bar>d - 10 * log 10 (0.09 / 10)\<bar> \<le> 1 / 80 \<and> \<bar>d - (- 20.46)\<bar> \<le> 1 / 100) \<and>
    fround (mono_dr P 1 scenario_mean_square scenario_peak) = Fin (- 20)"
proof -
  have 1: "num_top_blocks_of (length scenario_mean_square) = 1"
    by (simp add: scenario_mean_square_def num_top_blocks_of_def)
  note 2 = scenario_top_average [OF assms(1)]
  note pk = scenario_peak_rep [OF assms(1)]
  have 3: "representative_peak P scenario_peak = round32 (3 / 10)"
    by (simp add: pk scenario_floats)
  obtain y where y: "log10 P (Fin (9663677 / 1073741824)) = Fin y"
    "\<bar>y - log 10 (9663677 / 1073741824)\<bar> \<le> 1 / 2 ^ 16"
    using assms(2) scenario_quotient(2) unfolding log10_spec_def
    by (metis zero_less_divide_iff zero_less_numeral)
  obtain d where d: "fmul (Fin 10) (Fin y) = Fin d" "\<bar>d - 10 * log 10 (0.09 / 10)\<bar> \<le> 1 / 80"
    "\<bar>d - (- 20.46)\<bar> \<le> 1 / 100" "round_away d = - 20"
    using scenario_rating [OF y(2)] by blast
  have dr: "mono_dr P 1 scenario_mean_square scenario_peak = Fin d"
    unfolding mono_dr_def Let_def 2 pk channel_dr_def scenario_quotient(1) y(1) f32_of_int_consts
    by (rule d(1))
  have "fround (Fin d) = Fin (- 20)" using d(4) by simp
  then show ?thesis using 1 2 3 dr d(2,3) by simp
qed

theorem worked_scenario_witness:
  "nth_element_spec (nth_element ref_platform) \<and> log10_spec (log10 ref_platform) \<and>
   top_average ref_platform 1 scenario_mean_square = Fin 10 \<and>
   representative_peak ref_platform scenario_peak = Fin (5033165 / 16777216) \<and>
   fround (mono_dr ref_platform 1 scenario_mean_square scenario_peak) = Fin (- 20)"
  using worked_scenario [OF ref_platform_ok(1,2)] ref_platform_ok(1,2)
  by (simp add: scenario_floats)

end
